theory Spec2Isabelle
  imports Complex_Main
begin

section \<open>Page-replacement simulator: the engine of \<open>src/utils/algorithms.ts\<close>\<close>

subsection \<open>JavaScript numbers\<close>

text \<open>
  A JavaScript number is an IEEE binary64 value. The finite ones are kept as the rational
  they denote; \<open>-0\<close> is identified with \<open>0\<close> (the program only compares pages with
  \<open>===\<close>, \<open>includes\<close> and as \<open>Map\<close> keys, and none of them separates the two zeros).
\<close>

datatype jsnum = NaN | Num rat | PosInf | NegInf

definition isNaN :: "jsnum \<Rightarrow> bool" where
  "isNaN n = (n = NaN)"

text \<open>The comparison \<open>n >= 0\<close>: false on \<open>NaN\<close>.\<close>

definition ge_zero :: "jsnum \<Rightarrow> bool" where
  "ge_zero n = (case n of NaN \<Rightarrow> False | Num q \<Rightarrow> 0 \<le> q | PosInf \<Rightarrow> True | NegInf \<Rightarrow> False)"

definition neg :: "jsnum \<Rightarrow> jsnum" where
  "neg n = (case n of NaN \<Rightarrow> NaN | Num q \<Rightarrow> Num (- q) | PosInf \<Rightarrow> NegInf | NegInf \<Rightarrow> PosInf)"

subsection \<open>Rounding a mathematical value to a number\<close>

text \<open>
  A non-negative mathematical value is a fraction \<open>a / b\<close> of integers (\<open>0 \<le> a\<close>,
  \<open>0 < b\<close>), so that all the arithmetic of the rounding is integer arithmetic.
  \<open>scale2 (a, b) e\<close> is the fraction \<open>(a / b) / 2^e\<close>.
\<close>

definition scale2 :: "int \<times> int \<Rightarrow> int \<Rightarrow> int \<times> int" where
  "scale2 f e = (if 0 \<le> e then (fst f, snd f * 2 ^ nat e) else (fst f * 2 ^ nat (- e), snd f))"

text \<open>The number of binary digits of a positive integer.\<close>

function bitLength :: "int \<Rightarrow> int" where
  "bitLength n = (if n \<le> 0 then 0 else 1 + bitLength (n div 2))"
  by pat_completeness auto
termination
  by (relation "measure nat") auto

declare bitLength.simps [simp del]

text \<open>The integer \<open>k\<close> with \<open>2^k \<le> a / b < 2^(k+1)\<close>, for a positive fraction.\<close>

definition floorLog2 :: "int \<times> int \<Rightarrow> int" where
  "floorLog2 f =
     (let d = bitLength (fst f) - bitLength (snd f);
          g = scale2 f d
      in if snd g \<le> fst g then d else d - 1)"

text \<open>The integer nearest to a fraction, a tie going to the even one.\<close>

definition roundHalfEven :: "int \<times> int \<Rightarrow> int" where
  "roundHalfEven f =
     (let q = fst f div snd f; r = fst f mod snd f
      in if 2 * r < snd f then q
         else if snd f < 2 * r then q + 1
         else if even q then q else q + 1)"

text \<open>
  The Number value for a non-negative mathematical value: the nearest binary64 value
  \<open>m * 2^e\<close> (\<open>m \<le> 2^53\<close>, \<open>- 1074 \<le> e\<close>), a tie going to the even significand, and
  \<open>Infinity\<close> when the rounding reaches \<open>2^1024 = 2^53 * 2^971\<close>.
\<close>

definition toDouble :: "int \<times> int \<Rightarrow> jsnum" where
  "toDouble f =
     (if fst f \<le> 0 then Num 0
      else let e = max (floorLog2 f - 52) (- 1074);
               m = roundHalfEven (scale2 f e)
           in if 971 < e \<or> (e = 971 \<and> 2 ^ 53 \<le> m) then PosInf
              else if 0 \<le> e then Num (of_int (m * 2 ^ nat e))
              else Num (of_int m / of_int (2 ^ nat (- e))))"

text \<open>The mathematical value \<open>n * 10^x\<close> of a decimal literal, as a fraction.\<close>

definition decimalMV :: "int \<Rightarrow> int \<Rightarrow> int \<times> int" where
  "decimalMV n x = (if 0 \<le> x then (n * 10 ^ nat x, 1) else (n, 10 ^ nat (- x)))"

text \<open>
  The quotient \<open>a / b\<close> of two counters. A counter is an integer below \<open>2^53\<close>, which a
  number holds exactly, so the quotient is the Number value for the fraction; \<open>0 / 0\<close> is
  \<open>NaN\<close> and a positive count over 0 is \<open>Infinity\<close>.
\<close>

definition jsDivide :: "nat \<Rightarrow> nat \<Rightarrow> jsnum" where
  "jsDivide a b =
     (if b = 0 then (if a = 0 then NaN else PosInf) else toDouble (int a, int b))"

subsection \<open>\<open>Number(s)\<close> on a trimmed string\<close>

text \<open>
  Strings are lists of code units below 256. The white space and line terminators of
  that range are the code units 9 to 13, 32 and 160.
\<close>

definition isWhiteSpace :: "char \<Rightarrow> bool" where
  "isWhiteSpace c = (of_char c \<in> {9, 10, 11, 12, 13, 32, 160 :: int})"

definition trim :: "string \<Rightarrow> string" where
  "trim s = rev (dropWhile isWhiteSpace (rev (dropWhile isWhiteSpace s)))"

definition digitValue :: "char \<Rightarrow> int option" where
  "digitValue c =
     (let n = (of_char c :: int)
      in if 48 \<le> n \<and> n \<le> 57 then Some (n - 48)
         else if 97 \<le> n \<and> n \<le> 102 then Some (n - 87)
         else if 65 \<le> n \<and> n \<le> 70 then Some (n - 55)
         else None)"

definition isDigitOf :: "int \<Rightarrow> char \<Rightarrow> bool" where
  "isDigitOf radix c = (case digitValue c of None \<Rightarrow> False | Some d \<Rightarrow> d < radix)"

definition digitsMV :: "int \<Rightarrow> string \<Rightarrow> int" where
  "digitsMV radix ds = foldl (\<lambda>a c. a * radix + (case digitValue c of None \<Rightarrow> 0 | Some d \<Rightarrow> d)) 0 ds"

text \<open>A non-empty run of digits of the radix, and nothing else.\<close>

definition digitString :: "int \<Rightarrow> string \<Rightarrow> int option" where
  "digitString radix ds =
     (if ds \<noteq> [] \<and> list_all (isDigitOf radix) ds then Some (digitsMV radix ds) else None)"

text \<open>\<open>SignedInteger\<close> and the optional \<open>ExponentPart\<close> (absent: exponent 0).\<close>

definition signedInteger :: "string \<Rightarrow> int option" where
  "signedInteger s =
     (case s of
        [] \<Rightarrow> None
      | c # r \<Rightarrow>
          if c = CHR ''+'' then digitString 10 r
          else if c = CHR ''-'' then map_option uminus (digitString 10 r)
          else digitString 10 s)"

definition exponentPart :: "string \<Rightarrow> int option" where
  "exponentPart s =
     (case s of
        [] \<Rightarrow> Some 0
      | c # r \<Rightarrow> if c = CHR ''e'' \<or> c = CHR ''E'' then signedInteger r else None)"

text \<open>
  \<open>StrUnsignedDecimalLiteral\<close>: \<open>Infinity\<close>, \<open>digits . digits? exp?\<close>, \<open>. digits exp?\<close> or
  \<open>digits exp?\<close>. The mathematical value of \<open>ip . fp e x\<close> is the integer \<open>ip fp\<close> times
  \<open>10^(x - length fp)\<close>. The result is the rounded value, \<open>NaN\<close> when the string is no
  literal.
\<close>

definition strUnsignedDecimalLiteral :: "string \<Rightarrow> jsnum" where
  "strUnsignedDecimalLiteral s =
     (if s = ''Infinity'' then PosInf
      else
        let ip = takeWhile (isDigitOf 10) s;
            r1 = dropWhile (isDigitOf 10) s
        in case r1 of
             c # r1' \<Rightarrow>
               if c = CHR ''.'' then
                 (let fp = takeWhile (isDigitOf 10) r1';
                      r2 = dropWhile (isDigitOf 10) r1'
                  in if ip = [] \<and> fp = [] then NaN
                     else case exponentPart r2 of
                            None \<Rightarrow> NaN
                          | Some e \<Rightarrow>
                              toDouble (decimalMV (digitsMV 10 (ip @ fp)) (e - int (length fp))))
               else if ip = [] then NaN
               else (case exponentPart r1 of
                       None \<Rightarrow> NaN
                     | Some e \<Rightarrow> toDouble (decimalMV (digitsMV 10 ip) e))
           | [] \<Rightarrow> if ip = [] then NaN else toDouble (decimalMV (digitsMV 10 ip) 0))"

text \<open>\<open>NonDecimalIntegerLiteral\<close>: \<open>0x\<close>, \<open>0o\<close>, \<open>0b\<close> (either case) and digits; no sign.\<close>

definition nonDecimalIntegerLiteral :: "string \<Rightarrow> int option" where
  "nonDecimalIntegerLiteral s =
     (case s of
        z # x # ds \<Rightarrow>
          if z \<noteq> CHR ''0'' then None
          else if x = CHR ''x'' \<or> x = CHR ''X'' then digitString 16 ds
          else if x = CHR ''o'' \<or> x = CHR ''O'' then digitString 8 ds
          else if x = CHR ''b'' \<or> x = CHR ''B'' then digitString 2 ds
          else None
      | _ \<Rightarrow> None)"

text \<open>\<open>Number(s)\<close>: the empty string (after trimming) is 0.\<close>

definition Number :: "string \<Rightarrow> jsnum" where
  "Number s0 =
     (let s = trim s0
      in case s of
           [] \<Rightarrow> Num 0
         | c # r \<Rightarrow>
             (case nonDecimalIntegerLiteral s of
                Some n \<Rightarrow> toDouble (n, 1)
              | None \<Rightarrow>
                  if c = CHR ''+'' then strUnsignedDecimalLiteral r
                  else if c = CHR ''-'' then neg (strUnsignedDecimalLiteral r)
                  else strUnsignedDecimalLiteral s))"

subsection \<open>\<open>parseReferenceString\<close>\<close>

text \<open>\<open>input.split(',')\<close>: one more piece than there are commas.\<close>

fun split_comma :: "string \<Rightarrow> string list" where
  "split_comma [] = [[]]"
| "split_comma (c # cs) =
     (if c = CHR '','' then [] # split_comma cs
      else (case split_comma cs of
              t # ts \<Rightarrow> (c # t) # ts
            | [] \<Rightarrow> [[c]]))"

definition parseReferenceString :: "string \<Rightarrow> jsnum list" where
  "parseReferenceString input =
     filter ge_zero
       (map Number
          (filter (\<lambda>s. s \<noteq> [] \<and> \<not> isNaN (Number s))
             (map trim (split_comma input))))"


subsection \<open>The types of \<open>src/types.ts\<close>\<close>

datatype AlgorithmType = FIFO | LRU | OPTIMAL | CLOCK

datatype Status = HIT | FAULT

text \<open>
  A step of the trace. A frame holds a page or \<open>null\<close> (\<open>None\<close>). The metadata is the
  empty object (\<open>None\<close>) except under CLOCK, where it is the pointer and a copy of the
  reference bits. The explanation text is left out.
\<close>

record SimulationStep =
  stepIndex :: nat
  requestedPage :: jsnum
  frames :: "jsnum option list"
  status :: Status
  replacedPage :: "jsnum option"
  metadata :: "(nat \<times> nat list) option"

record SimulationResult =
  algorithm :: AlgorithmType
  steps :: "SimulationStep list"
  totalHits :: nat
  totalFaults :: nat
  hitRatio :: jsnum
  faultRatio :: jsnum

subsection \<open>Arrays\<close>

text \<open>
  \<open>Array(n).fill(v)\<close>: the constructor throws a \<open>RangeError\<close> unless \<open>n\<close> is an integer
  from 0 to \<open>2^32 - 1\<close>.
\<close>

datatype error = RangeError

definition newArray :: "int \<Rightarrow> 'a \<Rightarrow> error + 'a list" where
  "newArray n v = (if 0 \<le> n \<and> n < 2 ^ 32 then Inr (replicate (nat n) v) else Inl RangeError)"

text \<open>\<open>xs.indexOf(x)\<close>: the first index holding \<open>x\<close>; \<open>None\<close> stands for \<open>-1\<close>.\<close>

fun indexOf :: "'a list \<Rightarrow> 'a \<Rightarrow> nat option" where
  "indexOf [] x = None"
| "indexOf (y # ys) x = (if y = x then Some 0 else map_option Suc (indexOf ys x))"

text \<open>\<open>xs.includes(x)\<close>.\<close>

definition includesElem :: "'a list \<Rightarrow> 'a \<Rightarrow> bool" where
  "includesElem xs x = (x \<in> set xs)"

text \<open>An integer or \<open>Infinity\<close>, for \<open>minLastAccess\<close> and \<open>furthestDistance\<close>.\<close>

datatype ext = Fin int | Infinity

fun ext_less :: "ext \<Rightarrow> ext \<Rightarrow> bool" where
  "ext_less (Fin a) (Fin b) = (a < b)"
| "ext_less (Fin a) Infinity = True"
| "ext_less Infinity _ = False"

subsection \<open>The state of one run\<close>

text \<open>The variables of \<open>runSimulation\<close> that live across the references.\<close>

record SimState =
  currentFrames :: "jsnum option list"
  fifoQueue :: "jsnum list"
  lruMap :: "jsnum \<rightharpoonup> nat"
  referenceBits :: "nat list"
  clockPointer :: nat
  hits :: nat
  faults :: nat
  stepsAcc :: "SimulationStep list"

text \<open>\<open>steps.push({...})\<close> at the end of the callback, with the frames and bits of the step.\<close>

definition pushStep :: "AlgorithmType \<Rightarrow> jsnum \<Rightarrow> nat \<Rightarrow> Status \<Rightarrow> jsnum option \<Rightarrow> SimState \<Rightarrow> SimState" where
  "pushStep alg page i st replaced s =
     s\<lparr>stepsAcc := stepsAcc s @
          [\<lparr>stepIndex = i, requestedPage = page, frames = currentFrames s, status = st,
            replacedPage = replaced,
            metadata = (if alg = CLOCK then Some (clockPointer s, referenceBits s) else None)\<rparr>]\<rparr>"

subsection \<open>A hit\<close>

text \<open>
  LRU records the access time; CLOCK sets the reference bit of the frame that holds the
  page (\<open>indexOf\<close> finds it, the page being in the frames).
\<close>

definition onHit :: "AlgorithmType \<Rightarrow> jsnum \<Rightarrow> nat \<Rightarrow> SimState \<Rightarrow> SimState" where
  "onHit alg page i s =
     (if alg = LRU then s\<lparr>lruMap := (lruMap s)(page \<mapsto> i)\<rparr>
      else if alg = CLOCK then
        (case indexOf (currentFrames s) (Some page) of
           Some hitIndex \<Rightarrow> s\<lparr>referenceBits := (referenceBits s)[hitIndex := 1]\<rparr>
         | None \<Rightarrow> s)
      else s)"

subsection \<open>A fault with an empty frame\<close>

definition fillEmpty :: "AlgorithmType \<Rightarrow> nat \<Rightarrow> jsnum \<Rightarrow> nat \<Rightarrow> nat \<Rightarrow> SimState \<Rightarrow> SimState" where
  "fillEmpty alg frameCount page i emptyIndex s =
     (let s1 = s\<lparr>currentFrames := (currentFrames s)[emptyIndex := Some page]\<rparr>
      in if alg = FIFO then s1\<lparr>fifoQueue := fifoQueue s1 @ [page]\<rparr>
         else if alg = LRU then s1\<lparr>lruMap := (lruMap s1)(page \<mapsto> i)\<rparr>
         else if alg = CLOCK then
           s1\<lparr>referenceBits := (referenceBits s1)[emptyIndex := 1],
              clockPointer := (clockPointer s1 + 1) mod frameCount\<rparr>
         else s1)"

subsection \<open>A fault with no empty frame: the victim\<close>

text \<open>
  Each policy gives \<open>indexToReplace\<close> (\<open>None\<close> for \<open>-1\<close>), \<open>replacedPage\<close> and the state
  with its own bookkeeping done.
\<close>

type_synonym victim = "nat option \<times> jsnum option \<times> SimState"

text \<open>FIFO: \<open>fifoQueue.shift()\<close>, \<open>undefined\<close> on the empty queue.\<close>

definition fifoVictim :: "jsnum \<Rightarrow> SimState \<Rightarrow> victim" where
  "fifoVictim page s =
     (case fifoQueue s of
        [] \<Rightarrow> (None, None, s)
      | pageToEvict # rest \<Rightarrow>
          (indexOf (currentFrames s) (Some pageToEvict), Some pageToEvict,
           s\<lparr>fifoQueue := rest @ [page]\<rparr>))"

text \<open>
  LRU: the scan of the frames keeps \<open>(minLastAccess, pageToEvict)\<close>, from
  \<open>(Infinity, -1)\<close>.
\<close>

text \<open>\<open>lruMap.get(p) ?? -1\<close>.\<close>

definition lastAccessOf :: "(jsnum \<rightharpoonup> nat) \<Rightarrow> jsnum \<Rightarrow> int" where
  "lastAccessOf m q = (case m q of None \<Rightarrow> - 1 | Some t \<Rightarrow> int t)"

definition lruScanStep :: "(jsnum \<rightharpoonup> nat) \<Rightarrow> ext \<times> jsnum \<Rightarrow> jsnum option \<Rightarrow> ext \<times> jsnum" where
  "lruScanStep m acc p =
     (case p of
        None \<Rightarrow> acc
      | Some q \<Rightarrow>
          let lastAccess = lastAccessOf m q
          in if ext_less (Fin lastAccess) (fst acc) then (Fin lastAccess, q) else acc)"

definition lruScan :: "(jsnum \<rightharpoonup> nat) \<Rightarrow> jsnum option list \<Rightarrow> ext \<times> jsnum" where
  "lruScan m fs = foldl (lruScanStep m) (Infinity, Num (- 1)) fs"

definition lruVictim :: "jsnum \<Rightarrow> nat \<Rightarrow> SimState \<Rightarrow> victim" where
  "lruVictim page i s =
     (let pageToEvict = snd (lruScan (lruMap s) (currentFrames s));
          s1 = s\<lparr>lruMap := (lruMap s)(page \<mapsto> i)\<rparr>
      in if pageToEvict \<noteq> Num (- 1)
         then (indexOf (currentFrames s) (Some pageToEvict), Some pageToEvict, s1)
         else (None, None, s1))"

text \<open>
  OPTIMAL: the scan keeps \<open>(furthestDistance, pageToEvict, isInfinite)\<close>, from
  \<open>(-1, -1, false)\<close>; \<open>remainingPages\<close> is \<open>pages.slice(stepIndex + 1)\<close>.
\<close>

definition optScanStep :: "jsnum list \<Rightarrow> ext \<times> jsnum \<times> bool \<Rightarrow> jsnum option \<Rightarrow> ext \<times> jsnum \<times> bool" where
  "optScanStep remainingPages acc p =
     (case p of
        None \<Rightarrow> acc
      | Some q \<Rightarrow>
          (case indexOf remainingPages q of
             None \<Rightarrow> if \<not> snd (snd acc) then (Infinity, q, True) else acc
           | Some nextUseIndex \<Rightarrow>
               if \<not> snd (snd acc) \<and> ext_less (fst acc) (Fin (int nextUseIndex))
               then (Fin (int nextUseIndex), q, snd (snd acc))
               else acc))"

definition optScan :: "jsnum list \<Rightarrow> nat \<Rightarrow> jsnum option list \<Rightarrow> ext \<times> jsnum \<times> bool" where
  "optScan pages i fs = foldl (optScanStep (drop (i + 1) pages)) (Fin (- 1), Num (- 1), False) fs"

definition optVictim :: "jsnum list \<Rightarrow> nat \<Rightarrow> SimState \<Rightarrow> victim" where
  "optVictim pages i s =
     (let pageToEvict = fst (snd (optScan pages i (currentFrames s)))
      in if pageToEvict \<noteq> Num (- 1)
         then (indexOf (currentFrames s) (Some pageToEvict), Some pageToEvict, s)
         else (None, None, s))"

text \<open>
  CLOCK: the \<open>while\<close> loop over \<open>(found, attempts, indexToReplace, replacedPage,
  clockPointer, nextRefBits)\<close>. A read of \<open>nextRefBits\<close> beyond its length would be
  \<open>undefined\<close>, which is not \<open>0\<close>.
\<close>

record Sweep =
  found :: bool
  attempts :: nat
  indexToReplace :: "nat option"
  victimPage :: "jsnum option"
  pointer :: nat
  bits :: "nat list"

definition sweepBody :: "nat \<Rightarrow> jsnum option list \<Rightarrow> Sweep \<Rightarrow> Sweep" where
  "sweepBody frameCount nextFrames w =
     (if pointer w < length (bits w) \<and> bits w ! pointer w = 0 then
        w\<lparr>found := True, indexToReplace := Some (pointer w),
          victimPage := (if pointer w < length nextFrames then nextFrames ! pointer w else None),
          pointer := (pointer w + 1) mod frameCount, attempts := attempts w + 1\<rparr>
      else
        w\<lparr>bits := (bits w)[pointer w := 0],
          pointer := (pointer w + 1) mod frameCount, attempts := attempts w + 1\<rparr>)"

function clockSweep :: "nat \<Rightarrow> jsnum option list \<Rightarrow> Sweep \<Rightarrow> Sweep" where
  "clockSweep frameCount nextFrames w =
     (if \<not> found w \<and> attempts w < frameCount * 3
      then clockSweep frameCount nextFrames (sweepBody frameCount nextFrames w)
      else w)"
  by pat_completeness auto
termination
  by (relation "measure (\<lambda>(frameCount, nextFrames, w). frameCount * 3 - attempts w)")
     (auto simp: sweepBody_def)

declare clockSweep.simps [simp del]

definition clockVictim :: "nat \<Rightarrow> SimState \<Rightarrow> victim" where
  "clockVictim frameCount s =
     (let w = clockSweep frameCount (currentFrames s)
                \<lparr>found = False, attempts = 0, indexToReplace = None, victimPage = None,
                 pointer = clockPointer s, bits = referenceBits s\<rparr>;
          s1 = s\<lparr>clockPointer := pointer w, referenceBits := bits w\<rparr>
      in case indexToReplace w of
           None \<Rightarrow> (None, victimPage w, s1)
         | Some idx \<Rightarrow> (Some idx, victimPage w, s1\<lparr>referenceBits := (bits w)[idx := 1]\<rparr>))"

definition selectVictim :: "AlgorithmType \<Rightarrow> jsnum list \<Rightarrow> nat \<Rightarrow> jsnum \<Rightarrow> nat \<Rightarrow> SimState \<Rightarrow> victim" where
  "selectVictim alg pages frameCount page i s =
     (case alg of
        FIFO \<Rightarrow> fifoVictim page s
      | LRU \<Rightarrow> lruVictim page i s
      | OPTIMAL \<Rightarrow> optVictim pages i s
      | CLOCK \<Rightarrow> clockVictim frameCount s)"

subsection \<open>One reference\<close>

definition processPage :: "AlgorithmType \<Rightarrow> jsnum list \<Rightarrow> nat \<Rightarrow> SimState \<Rightarrow> jsnum \<times> nat \<Rightarrow> SimState" where
  "processPage alg pages frameCount s r =
     (let page = fst r; i = snd r
      in if includesElem (currentFrames s) (Some page) then
           pushStep alg page i HIT None (onHit alg page i (s\<lparr>hits := hits s + 1\<rparr>))
         else
           (let s1 = s\<lparr>faults := faults s + 1\<rparr>
            in case indexOf (currentFrames s1) None of
                 Some emptyIndex \<Rightarrow>
                   pushStep alg page i FAULT None (fillEmpty alg frameCount page i emptyIndex s1)
               | None \<Rightarrow>
                   (case selectVictim alg pages frameCount page i s1 of
                      (idx, replaced, s2) \<Rightarrow>
                        pushStep alg page i FAULT replaced
                          (case idx of
                             None \<Rightarrow> s2
                           | Some j \<Rightarrow> s2\<lparr>currentFrames := (currentFrames s2)[j := Some page]\<rparr>))))"

subsection \<open>\<open>runSimulation\<close>\<close>

definition initialState :: "jsnum option list \<Rightarrow> nat list \<Rightarrow> SimState" where
  "initialState fs bs =
     \<lparr>currentFrames = fs, fifoQueue = [], lruMap = Map.empty, referenceBits = bs,
      clockPointer = 0, hits = 0, faults = 0, stepsAcc = []\<rparr>"

text \<open>The state after the first \<open>k\<close> references of \<open>pages.forEach\<close>.\<close>

definition stateAfter :: "AlgorithmType \<Rightarrow> jsnum list \<Rightarrow> nat \<Rightarrow> SimState \<Rightarrow> nat \<Rightarrow> SimState" where
  "stateAfter alg pages frameCount s0 k =
     foldl (processPage alg pages frameCount) s0 (take k (zip pages [0..<length pages]))"

definition makeResult :: "AlgorithmType \<Rightarrow> jsnum list \<Rightarrow> SimState \<Rightarrow> SimulationResult" where
  "makeResult alg pages s =
     \<lparr>algorithm = alg, steps = stepsAcc s, totalHits = hits s, totalFaults = faults s,
      hitRatio = (if length pages > 0 then jsDivide (hits s) (length pages) else Num 0),
      faultRatio = (if length pages > 0 then jsDivide (faults s) (length pages) else Num 0)\<rparr>"

definition runSimulation :: "string \<Rightarrow> int \<Rightarrow> AlgorithmType \<Rightarrow> error + SimulationResult" where
  "runSimulation rawRefString frameCount alg =
     (let pages = parseReferenceString rawRefString
      in case newArray frameCount None of
           Inl e \<Rightarrow> Inl e
         | Inr fs \<Rightarrow>
             (case newArray frameCount 0 of
                Inl e \<Rightarrow> Inl e
              | Inr bs \<Rightarrow>
                  Inr (makeResult alg pages
                         (stateAfter alg pages (nat frameCount) (initialState fs bs) (length pages)))))"

subsection \<open>Names for the statements\<close>

text \<open>
  The state of the run \<open>runSimulation rawRefString frameCount alg\<close> just before its
  reference number \<open>k\<close> (from 0) is processed.
\<close>

definition stateBefore :: "string \<Rightarrow> int \<Rightarrow> AlgorithmType \<Rightarrow> nat \<Rightarrow> SimState" where
  "stateBefore rawRefString frameCount alg k =
     stateAfter alg (parseReferenceString rawRefString) (nat frameCount)
       (initialState (replicate (nat frameCount) None) (replicate (nat frameCount) 0)) k"

text \<open>
  The shape of the state that every reference keeps: the frame table and the reference
  bits have \<open>frameCount\<close> slots, and the sweep pointer is a slot index.
\<close>

definition wellFormed :: "nat \<Rightarrow> SimState \<Rightarrow> bool" where
  "wellFormed frameCount s \<longleftrightarrow>
     length (currentFrames s) = frameCount \<and> length (referenceBits s) = frameCount
     \<and> (0 < frameCount \<longrightarrow> clockPointer s < frameCount)"

text \<open>No page is held by two frames.\<close>

definition noDuplicates :: "jsnum option list \<Rightarrow> bool" where
  "noDuplicates fs \<longleftrightarrow>
     (\<forall>i<length fs. \<forall>j<length fs. fs ! i = fs ! j \<and> fs ! i \<noteq> None \<longrightarrow> i = j)"

text \<open>The FIFO queue holds exactly the resident pages, each once.\<close>

definition fifoInv :: "SimState \<Rightarrow> bool" where
  "fifoInv s \<longleftrightarrow>
     distinct (fifoQueue s) \<and> set (fifoQueue s) = {p. Some p \<in> set (currentFrames s)}"

text \<open>
  \<open>firstLeast key fs j v\<close>: slot \<open>j\<close> of the frames \<open>fs\<close> holds the page \<open>v\<close>, no resident
  page has a smaller key than \<open>v\<close>, and every page in an earlier slot has a larger one.
\<close>

definition firstLeast :: "(jsnum \<Rightarrow> int) \<Rightarrow> jsnum option list \<Rightarrow> nat \<Rightarrow> jsnum \<Rightarrow> bool" where
  "firstLeast key fs j v \<longleftrightarrow>
     j < length fs \<and> fs ! j = Some v
     \<and> (\<forall>i<length fs. \<forall>w. fs ! i = Some w \<longrightarrow> key v \<le> key w)
     \<and> (\<forall>i<j. \<forall>w. fs ! i = Some w \<longrightarrow> key v < key w)"

text \<open>
  The distance from step \<open>k\<close> to the next use of a page: its index in the references
  after step \<open>k\<close>, \<open>None\<close> when it is not used again.
\<close>

definition nextUse :: "jsnum list \<Rightarrow> nat \<Rightarrow> jsnum \<Rightarrow> nat option" where
  "nextUse pages k p = indexOf (drop (k + 1) pages) p"

text \<open>
  \<open>optChoice nu fs j v\<close>: slot \<open>j\<close> of the frames \<open>fs\<close> holds the page \<open>v\<close>; if \<open>v\<close> is not
  used again, every page in an earlier slot is; if \<open>v\<close> is used again at distance \<open>d\<close>,
  every resident page is used again at a distance of at most \<open>d\<close>, and every page in an
  earlier slot at a smaller one.
\<close>

definition optChoice :: "(jsnum \<Rightarrow> nat option) \<Rightarrow> jsnum option list \<Rightarrow> nat \<Rightarrow> jsnum \<Rightarrow> bool" where
  "optChoice nu fs j v \<longleftrightarrow>
     j < length fs \<and> fs ! j = Some v
     \<and> (case nu v of
          None \<Rightarrow> (\<forall>i<j. \<forall>w. fs ! i = Some w \<longrightarrow> nu w \<noteq> None)
        | Some d \<Rightarrow>
            (\<forall>i<length fs. \<forall>w. fs ! i = Some w \<longrightarrow> (\<exists>e. nu w = Some e \<and> e \<le> d))
            \<and> (\<forall>i<j. \<forall>w. fs ! i = Some w \<longrightarrow> (\<exists>e. nu w = Some e \<and> e < d)))"

text \<open>
  The state \<open>w\<close> of a sweep that started at pointer \<open>p0\<close> on the bits \<open>b0\<close>, after passing
  \<open>n\<close> slots: the passed slots \<open>p0, p0 + 1, ...\<close> (modulo \<open>fc\<close>) had their bit set and have
  it cleared now, the other bits are untouched, and either the sweep is at the next slot
  or it has just selected that slot, whose bit is 0, and stepped past it.
\<close>

definition sweepInv :: "nat \<Rightarrow> jsnum option list \<Rightarrow> nat list \<Rightarrow> nat \<Rightarrow> Sweep \<Rightarrow> bool" where
  "sweepInv fc fs b0 p0 w \<longleftrightarrow>
     length (bits w) = fc
     \<and> (\<exists>n\<le>fc.
           (\<forall>i<n. b0 ! ((p0 + i) mod fc) \<noteq> 0)
         \<and> (\<forall>x<fc. bits w ! x = (if \<exists>i<n. x = (p0 + i) mod fc then 0 else b0 ! x))
         \<and> (if found w
             then attempts w = n + 1 \<and> indexToReplace w = Some ((p0 + n) mod fc)
                  \<and> victimPage w = fs ! ((p0 + n) mod fc)
                  \<and> pointer w = (p0 + n + 1) mod fc \<and> bits w ! ((p0 + n) mod fc) = 0
             else attempts w = n \<and> pointer w = (p0 + n) mod fc))"

text \<open>The reference bits are 0 or 1.\<close>

definition bitsValid :: "SimState \<Rightarrow> bool" where
  "bitsValid s \<longleftrightarrow> (\<forall>x\<in>set (referenceBits s). x = 0 \<or> x = 1)"

section \<open>Properties\<close>

subsection \<open>Basic facts\<close>

lemma stateAfter_0: "stateAfter alg pages fc s0 0 = s0"
  by (simp add: stateAfter_def)

lemma stateAfter_Suc:
  assumes "k < length pages"
  shows "stateAfter alg pages fc s0 (Suc k)
         = processPage alg pages fc (stateAfter alg pages fc s0 k) (pages ! k, k)"
proof -
  have "take (Suc k) (zip pages [0..<length pages])
        = take k (zip pages [0..<length pages]) @ [(pages ! k, k)]"
    using assms by (simp add: take_Suc_conv_app_nth)
  then show ?thesis by (simp add: stateAfter_def)
qed

lemma stateAfter_induct:
  assumes "P s0"
    and "\<And>s k. k < length pages \<Longrightarrow> P s \<Longrightarrow> P (processPage alg pages fc s (pages ! k, k))"
    and "k \<le> length pages"
  shows "P (stateAfter alg pages fc s0 k)"
  using assms(3)
proof (induction k)
  case 0
  then show ?case by (simp add: stateAfter_0 assms(1))
next
  case (Suc k)
  then show ?case by (simp add: stateAfter_Suc assms(2))
qed

lemma indexOf_None_iff: "indexOf xs x = None \<longleftrightarrow> x \<notin> set xs"
  by (induction xs) auto

lemma indexOf_Some_D: "indexOf xs x = Some i \<Longrightarrow> i < length xs \<and> xs ! i = x \<and> (\<forall>j<i. xs ! j \<noteq> x)"
proof (induction xs arbitrary: i)
  case Nil
  then show ?case by simp
next
  case (Cons y ys)
  show ?case
  proof (cases "y = x")
    case True
    with Cons.prems show ?thesis by simp
  next
    case False
    with Cons.prems obtain i' where i': "indexOf ys x = Some i'" "i = Suc i'"
      by auto
    from Cons.IH[OF i'(1)] have "i' < length ys" "ys ! i' = x" "\<forall>j<i'. ys ! j \<noteq> x"
      by auto
    with False i'(2) show ?thesis
      by (auto simp: nth_Cons split: nat.splits)
  qed
qed

lemma indexOf_distinct_nth:
  "distinct xs \<Longrightarrow> i < length xs \<Longrightarrow> indexOf xs (xs ! i) = Some i"
proof (induction xs arbitrary: i)
  case Nil
  then show ?case by simp
next
  case (Cons y ys)
  then show ?case by (cases i) auto
qed

subsection \<open>The victim selections leave the trace and the counters alone\<close>

lemma clockSweep_found [simp]: "found w \<Longrightarrow> clockSweep fc fs w = w"
  by (simp add: clockSweep.simps)

lemma clockSweep_done [simp]: "\<not> attempts w < fc * 3 \<Longrightarrow> clockSweep fc fs w = w"
  by (simp add: clockSweep.simps)

lemma clockSweep_step:
  "\<not> found w \<Longrightarrow> attempts w < fc * 3 \<Longrightarrow> clockSweep fc fs w = clockSweep fc fs (sweepBody fc fs w)"
  by (subst clockSweep.simps) simp

lemma selectVictim_fields:
  assumes "selectVictim alg pages fc page i s = (idx, rep, s2)"
  shows "stepsAcc s2 = stepsAcc s" "hits s2 = hits s" "faults s2 = faults s"
    "currentFrames s2 = currentFrames s"
  using assms
  by (cases alg;
      auto simp: selectVictim_def fifoVictim_def lruVictim_def optVictim_def clockVictim_def Let_def
           split: list.splits if_splits option.splits)+

lemma onHit_fields:
  "stepsAcc (onHit alg page i s) = stepsAcc s" "hits (onHit alg page i s) = hits s"
  "faults (onHit alg page i s) = faults s" "currentFrames (onHit alg page i s) = currentFrames s"
  by (auto simp: onHit_def split: option.splits)

lemma fillEmpty_fields:
  "stepsAcc (fillEmpty alg fc page i e s) = stepsAcc s" "hits (fillEmpty alg fc page i e s) = hits s"
  "faults (fillEmpty alg fc page i e s) = faults s"
  "currentFrames (fillEmpty alg fc page i e s) = (currentFrames s)[e := Some page]"
  by (auto simp: fillEmpty_def Let_def)

subsection \<open>The three branches of a reference\<close>

lemma processPage_hit:
  assumes "Some page \<in> set (currentFrames s)"
  shows "processPage alg pages fc s (page, i)
         = pushStep alg page i HIT None (onHit alg page i (s\<lparr>hits := hits s + 1\<rparr>))"
  using assms by (simp add: processPage_def includesElem_def)

lemma processPage_fill:
  assumes "Some page \<notin> set (currentFrames s)" and "indexOf (currentFrames s) None = Some e"
  shows "processPage alg pages fc s (page, i)
         = pushStep alg page i FAULT None (fillEmpty alg fc page i e (s\<lparr>faults := faults s + 1\<rparr>))"
  using assms by (simp add: processPage_def includesElem_def)

lemma processPage_evict:
  assumes "Some page \<notin> set (currentFrames s)" and "indexOf (currentFrames s) None = None"
    and "selectVictim alg pages fc page i (s\<lparr>faults := faults s + 1\<rparr>) = (idx, rep, s2)"
  shows "processPage alg pages fc s (page, i)
         = pushStep alg page i FAULT rep
             (case idx of None \<Rightarrow> s2 | Some j \<Rightarrow> s2\<lparr>currentFrames := (currentFrames s2)[j := Some page]\<rparr>)"
  using assms by (simp add: processPage_def includesElem_def)

text \<open>Every reference is one of the three.\<close>

lemma processPage_cases:
  obtains (hit) "Some page \<in> set (currentFrames s)"
  | (fill) e where "Some page \<notin> set (currentFrames s)" "indexOf (currentFrames s) None = Some e"
  | (evict) idx rep s2 where "Some page \<notin> set (currentFrames s)" "indexOf (currentFrames s) None = None"
      "selectVictim alg pages fc page i (s\<lparr>faults := faults s + 1\<rparr>) = (idx, rep, s2)"
  by (cases "Some page \<in> set (currentFrames s)"; cases "indexOf (currentFrames s) None";
      cases "selectVictim alg pages fc page i (s\<lparr>faults := faults s + 1\<rparr>)") auto

subsection \<open>The trace\<close>

text \<open>A reference appends exactly one step; the step records the frames it leaves.\<close>

lemma stepsAcc_pushStep:
  "stepsAcc (pushStep alg page i st rep s) =
     stepsAcc s @ [\<lparr>stepIndex = i, requestedPage = page, frames = currentFrames s, status = st,
                    replacedPage = rep,
                    metadata = (if alg = CLOCK then Some (clockPointer s, referenceBits s) else None)\<rparr>]"
  by (simp add: pushStep_def)

lemma pushStep_fields:
  "currentFrames (pushStep alg page i st rep s) = currentFrames s"
  "hits (pushStep alg page i st rep s) = hits s"
  "faults (pushStep alg page i st rep s) = faults s"
  "fifoQueue (pushStep alg page i st rep s) = fifoQueue s"
  "lruMap (pushStep alg page i st rep s) = lruMap s"
  "referenceBits (pushStep alg page i st rep s) = referenceBits s"
  "clockPointer (pushStep alg page i st rep s) = clockPointer s"
  by (simp_all add: pushStep_def)

lemma stepsAcc_processPage:
  "\<exists>st. stepsAcc (processPage alg pages fc s (page, i)) = stepsAcc s @ [st]
        \<and> frames st = currentFrames (processPage alg pages fc s (page, i))
        \<and> stepIndex st = i \<and> requestedPage st = page
        \<and> status st = (if Some page \<in> set (currentFrames s) then HIT else FAULT)"
proof (cases rule: processPage_cases[where page=page and s=s and alg=alg and pages=pages and fc=fc and i=i])
  case hit
  then show ?thesis
    by (simp add: processPage_hit stepsAcc_pushStep pushStep_fields onHit_fields)
next
  case (fill e)
  then show ?thesis
    by (simp add: processPage_fill stepsAcc_pushStep pushStep_fields fillEmpty_fields)
next
  case (evict idx rep s2)
  from selectVictim_fields[OF evict(3)] evict(1) show ?thesis
    by (cases idx) (simp_all add: processPage_evict[OF evict] stepsAcc_pushStep pushStep_fields)
qed

lemma length_stepsAcc_processPage:
  "length (stepsAcc (processPage alg pages fc s r)) = Suc (length (stepsAcc s))"
  using stepsAcc_processPage[of alg pages fc s "fst r" "snd r"] by auto

lemma length_stepsAcc_stateAfter:
  "k \<le> length pages \<Longrightarrow> length (stepsAcc (stateAfter alg pages fc s0 k)) = length (stepsAcc s0) + k"
proof (induction k)
  case 0
  then show ?case by (simp add: stateAfter_0)
next
  case (Suc k)
  then show ?case by (simp add: stateAfter_Suc length_stepsAcc_processPage)
qed

lemma stepsAcc_stateAfter_take:
  assumes "n \<le> length pages" and "k \<le> n"
  shows "take (length (stepsAcc s0) + k) (stepsAcc (stateAfter alg pages fc s0 n))
         = stepsAcc (stateAfter alg pages fc s0 k)"
  using assms
proof (induction n)
  case 0
  then show ?case by (simp add: stateAfter_0)
next
  case (Suc n)
  show ?case
  proof (cases "k = Suc n")
    case True
    with Suc.prems show ?thesis by (simp add: length_stepsAcc_stateAfter)
  next
    case False
    with Suc.prems have kn: "k \<le> n" and n: "n < length pages" by auto
    obtain st where st: "stepsAcc (stateAfter alg pages fc s0 (Suc n))
                         = stepsAcc (stateAfter alg pages fc s0 n) @ [st]"
      using stepsAcc_processPage[of alg pages fc "stateAfter alg pages fc s0 n" "pages ! n" n]
      by (auto simp: stateAfter_Suc[OF n])
    have "length (stepsAcc s0) + k \<le> length (stepsAcc (stateAfter alg pages fc s0 n))"
      using kn n by (simp add: length_stepsAcc_stateAfter)
    with st Suc.IH[OF _ kn] n show ?thesis by simp
  qed
qed

text \<open>
  Step \<open>k\<close> of the finished trace is the step that reference \<open>k\<close> appended, so it can be
  read off \<open>processPage\<close> on the state before that reference.
\<close>

lemma stepsAcc_nth:
  assumes "stepsAcc s0 = []" and "k < length pages"
  shows "stepsAcc (stateAfter alg pages fc s0 (length pages)) ! k
         = last (stepsAcc (processPage alg pages fc (stateAfter alg pages fc s0 k) (pages ! k, k)))"
proof -
  let ?full = "stepsAcc (stateAfter alg pages fc s0 (length pages))"
  let ?upto = "stepsAcc (stateAfter alg pages fc s0 (Suc k))"
  have t: "take (Suc k) ?full = ?upto"
    using stepsAcc_stateAfter_take[of "length pages" pages "Suc k" s0 alg fc] assms by simp
  have l: "length ?upto = Suc k"
    using assms by (simp add: length_stepsAcc_stateAfter)
  have "?full ! k = take (Suc k) ?full ! k" by simp
  also have "\<dots> = ?upto ! k" by (simp only: t)
  also have "\<dots> = last ?upto" using l by (metis diff_Suc_1 last_conv_nth length_0_conv nat.distinct(1))
  finally show ?thesis using assms(2) by (simp add: stateAfter_Suc)
qed

subsection \<open>\<open>runSimulation\<close> unfolded\<close>

lemma runSimulation_ok:
  assumes "0 \<le> frameCount" and "frameCount < 2 ^ 32"
  shows "runSimulation raw frameCount alg
         = Inr (makeResult alg (parseReferenceString raw)
                  (stateBefore raw frameCount alg (length (parseReferenceString raw))))"
  using assms by (simp add: runSimulation_def newArray_def stateBefore_def Let_def)

lemma runSimulation_error:
  assumes "frameCount < 0 \<or> 2 ^ 32 \<le> frameCount"
  shows "runSimulation raw frameCount alg = Inl RangeError"
  using assms by (auto simp: runSimulation_def newArray_def Let_def)

lemma runSimulation_Inr_D:
  assumes "runSimulation raw frameCount alg = Inr res"
  shows "0 \<le> frameCount" "frameCount < 2 ^ 32"
    "res = makeResult alg (parseReferenceString raw)
             (stateBefore raw frameCount alg (length (parseReferenceString raw)))"
proof -
  show a: "0 \<le> frameCount" and b: "frameCount < 2 ^ 32"
    using assms runSimulation_error[of frameCount raw alg] by (auto simp: not_le[symmetric])
  from runSimulation_ok[OF a b, of raw alg] assms
  show "res = makeResult alg (parseReferenceString raw)
                (stateBefore raw frameCount alg (length (parseReferenceString raw)))"
    by simp
qed

lemma stateBefore_0:
  "stateBefore raw frameCount alg 0
   = initialState (replicate (nat frameCount) None) (replicate (nat frameCount) 0)"
  by (simp add: stateBefore_def stateAfter_0)

lemma stateBefore_Suc:
  "k < length (parseReferenceString raw) \<Longrightarrow>
   stateBefore raw frameCount alg (Suc k)
   = processPage alg (parseReferenceString raw) (nat frameCount) (stateBefore raw frameCount alg k)
       (parseReferenceString raw ! k, k)"
  by (simp add: stateBefore_def stateAfter_Suc)

lemma length_steps:
  assumes "runSimulation raw frameCount alg = Inr res"
  shows "length (steps res) = length (parseReferenceString raw)"
  using runSimulation_Inr_D(3)[OF assms]
  by (simp add: makeResult_def stateBefore_def length_stepsAcc_stateAfter initialState_def)

lemma steps_nth:
  assumes "runSimulation raw frameCount alg = Inr res" and "k < length (steps res)"
  shows "steps res ! k = last (stepsAcc (stateBefore raw frameCount alg (Suc k)))"
proof -
  have k: "k < length (parseReferenceString raw)"
    using assms length_steps by simp
  have "steps res = stepsAcc (stateBefore raw frameCount alg (length (parseReferenceString raw)))"
    using runSimulation_Inr_D(3)[OF assms(1)] by (simp add: makeResult_def)
  then show ?thesis
    using stepsAcc_nth[of "initialState (replicate (nat frameCount) None) (replicate (nat frameCount) 0)"
        k "parseReferenceString raw" alg "nat frameCount"] k
    by (simp add: stateBefore_def initialState_def stateAfter_Suc)
qed

subsection \<open>What a reference records\<close>

lemma last_step_hit:
  assumes "Some page \<in> set (currentFrames s)"
  shows "status (last (stepsAcc (processPage alg pages fc s (page, i)))) = HIT"
    "replacedPage (last (stepsAcc (processPage alg pages fc s (page, i)))) = None"
    "frames (last (stepsAcc (processPage alg pages fc s (page, i)))) = currentFrames s"
    "currentFrames (processPage alg pages fc s (page, i)) = currentFrames s"
  using assms
  by (simp_all add: processPage_hit stepsAcc_pushStep pushStep_fields onHit_fields)

lemma last_step_fill:
  assumes "Some page \<notin> set (currentFrames s)" and "indexOf (currentFrames s) None = Some e"
  shows "status (last (stepsAcc (processPage alg pages fc s (page, i)))) = FAULT"
    "replacedPage (last (stepsAcc (processPage alg pages fc s (page, i)))) = None"
    "frames (last (stepsAcc (processPage alg pages fc s (page, i)))) = (currentFrames s)[e := Some page]"
    "currentFrames (processPage alg pages fc s (page, i)) = (currentFrames s)[e := Some page]"
  using assms
  by (simp_all add: processPage_fill stepsAcc_pushStep pushStep_fields fillEmpty_fields)

lemma last_step_evict:
  assumes "Some page \<notin> set (currentFrames s)" and "indexOf (currentFrames s) None = None"
    and "selectVictim alg pages fc page i (s\<lparr>faults := faults s + 1\<rparr>) = (idx, rep, s2)"
  shows "status (last (stepsAcc (processPage alg pages fc s (page, i)))) = FAULT"
    "replacedPage (last (stepsAcc (processPage alg pages fc s (page, i)))) = rep"
    "frames (last (stepsAcc (processPage alg pages fc s (page, i))))
     = (case idx of None \<Rightarrow> currentFrames s | Some j \<Rightarrow> (currentFrames s)[j := Some page])"
    "currentFrames (processPage alg pages fc s (page, i))
     = (case idx of None \<Rightarrow> currentFrames s | Some j \<Rightarrow> (currentFrames s)[j := Some page])"
  using selectVictim_fields(4)[OF assms(3)]
  by (simp_all add: processPage_evict[OF assms] stepsAcc_pushStep pushStep_fields split: option.splits)

lemma frames_last_step:
  "frames (last (stepsAcc (processPage alg pages fc s (page, i))))
   = currentFrames (processPage alg pages fc s (page, i))"
  using stepsAcc_processPage[of alg pages fc s page i] by auto

lemma status_last_step:
  "status (last (stepsAcc (processPage alg pages fc s (page, i))))
   = (if Some page \<in> set (currentFrames s) then HIT else FAULT)"
  using stepsAcc_processPage[of alg pages fc s page i] by auto

lemma requestedPage_last_step:
  "requestedPage (last (stepsAcc (processPage alg pages fc s (page, i)))) = page"
  using stepsAcc_processPage[of alg pages fc s page i] by auto

text \<open>The frames before reference \<open>k\<close> are those recorded by step \<open>k - 1\<close>.\<close>

lemma currentFrames_stateBefore:
  assumes "runSimulation raw frameCount alg = Inr res" and "k < length (steps res)"
  shows "currentFrames (stateBefore raw frameCount alg k)
         = (if k = 0 then replicate (nat frameCount) None else frames (steps res ! (k - 1)))"
proof (cases k)
  case 0
  then show ?thesis by (simp add: stateBefore_0 initialState_def)
next
  case (Suc j)
  with assms(2) have j: "j < length (steps res)" by simp
  then have "j < length (parseReferenceString raw)"
    using length_steps[OF assms(1)] by simp
  then show ?thesis
    using steps_nth[OF assms(1) j] Suc
    by (simp add: stateBefore_Suc frames_last_step)
qed

subsection \<open>The counters\<close>

lemma counters_processPage:
  "hits (processPage alg pages fc s (page, i))
   = (if Some page \<in> set (currentFrames s) then hits s + 1 else hits s)"
  "faults (processPage alg pages fc s (page, i))
   = (if Some page \<in> set (currentFrames s) then faults s else faults s + 1)"
proof -
  show "hits (processPage alg pages fc s (page, i))
        = (if Some page \<in> set (currentFrames s) then hits s + 1 else hits s)"
  proof (cases rule: processPage_cases[where page=page and s=s and alg=alg and pages=pages and fc=fc and i=i])
    case hit
    then show ?thesis by (simp add: processPage_hit pushStep_fields onHit_fields)
  next
    case (fill e)
    then show ?thesis by (simp add: processPage_fill pushStep_fields fillEmpty_fields)
  next
    case (evict idx rep s2)
    from selectVictim_fields[OF evict(3)] evict(1) show ?thesis
      by (cases idx) (simp_all add: processPage_evict[OF evict] pushStep_fields)
  qed
  show "faults (processPage alg pages fc s (page, i))
        = (if Some page \<in> set (currentFrames s) then faults s else faults s + 1)"
  proof (cases rule: processPage_cases[where page=page and s=s and alg=alg and pages=pages and fc=fc and i=i])
    case hit
    then show ?thesis by (simp add: processPage_hit pushStep_fields onHit_fields)
  next
    case (fill e)
    then show ?thesis by (simp add: processPage_fill pushStep_fields fillEmpty_fields)
  next
    case (evict idx rep s2)
    from selectVictim_fields[OF evict(3)] evict(1) show ?thesis
      by (cases idx) (simp_all add: processPage_evict[OF evict] pushStep_fields)
  qed
qed


subsection \<open>A run with no frames\<close>

lemma selectVictim_no_frames:
  assumes "currentFrames s = []" and "fifoQueue s = []"
    and "selectVictim alg pages 0 page i s = (idx, rep, s2)"
  shows "idx = None" "rep = None" "fifoQueue s2 = []"
  using assms
  by (cases alg;
      auto simp: selectVictim_def fifoVictim_def lruVictim_def lruScan_def optVictim_def
                 optScan_def clockVictim_def Let_def)+

lemma processPage_no_frames:
  assumes "currentFrames s = []" and "fifoQueue s = []"
  shows "currentFrames (processPage alg pages 0 s (page, i)) = []"
    "fifoQueue (processPage alg pages 0 s (page, i)) = []"
    "replacedPage (last (stepsAcc (processPage alg pages 0 s (page, i)))) = None"
proof -
  obtain idx rep s2 where
    v: "selectVictim alg pages 0 page i (s\<lparr>faults := faults s + 1\<rparr>) = (idx, rep, s2)"
    by (cases "selectVictim alg pages 0 page i (s\<lparr>faults := faults s + 1\<rparr>)") auto
  from selectVictim_no_frames[OF _ _ v] assms
  have n: "idx = None" "rep = None" "fifoQueue s2 = []" by simp_all
  have a: "Some page \<notin> set (currentFrames s)" "indexOf (currentFrames s) None = None"
    using assms by simp_all
  show "currentFrames (processPage alg pages 0 s (page, i)) = []"
    using last_step_evict(4)[OF a v] n assms by simp
  show "fifoQueue (processPage alg pages 0 s (page, i)) = []"
    using n by (simp add: processPage_evict[OF a v] pushStep_fields)
  show "replacedPage (last (stepsAcc (processPage alg pages 0 s (page, i)))) = None"
    using last_step_evict(2)[OF a v] n by simp
qed

lemma no_frames_invariant:
  assumes "k \<le> length pages"
  shows "currentFrames (stateAfter alg pages 0 (initialState [] []) k) = []
       \<and> fifoQueue (stateAfter alg pages 0 (initialState [] []) k) = []
       \<and> hits (stateAfter alg pages 0 (initialState [] []) k) = 0
       \<and> faults (stateAfter alg pages 0 (initialState [] []) k) = k
       \<and> (\<forall>st\<in>set (stepsAcc (stateAfter alg pages 0 (initialState [] []) k)).
             status st = FAULT \<and> frames st = [] \<and> replacedPage st = None)"
  using assms
proof (induction k)
  case 0
  then show ?case by (simp add: stateAfter_0 initialState_def)
next
  case (Suc k)
  let ?s = "stateAfter alg pages 0 (initialState [] []) k"
  let ?s' = "processPage alg pages 0 ?s (pages ! k, k)"
  from Suc have k: "k < length pages" and ih: "currentFrames ?s = []" "fifoQueue ?s = []"
    "hits ?s = 0" "faults ?s = k"
    "\<forall>st\<in>set (stepsAcc ?s). status st = FAULT \<and> frames st = [] \<and> replacedPage st = None"
    by simp_all
  obtain st where st: "stepsAcc ?s' = stepsAcc ?s @ [st]" "frames st = currentFrames ?s'"
    "status st = (if Some (pages ! k) \<in> set (currentFrames ?s) then HIT else FAULT)"
    using stepsAcc_processPage[of alg pages 0 ?s "pages ! k" k] by auto
  have "replacedPage st = None"
    using processPage_no_frames(3)[OF ih(1,2), of alg pages "pages ! k" k] st(1) by simp
  with st ih processPage_no_frames(1,2)[OF ih(1,2), of alg pages "pages ! k" k] k
  show ?case
    by (simp add: stateAfter_Suc counters_processPage)
qed

subsection \<open>Claims\<close>

text \<open>
  Claim C1, as amended. With a negative frame count \<open>runSimulation\<close> fails, with the
  \<open>RangeError\<close> of the array constructor (the program has no \<open>ConfigError\<close>). With frame
  count 0 it does not fail: it returns a result in which every reference is a FAULT on an
  empty frame table, with no page evicted.
\<close>

theorem runSimulation_nonpositive_frameCount:
  assumes "frameCount \<le> 0"
  shows "if frameCount < 0 then runSimulation raw frameCount alg = Inl RangeError
         else (\<exists>res. runSimulation raw frameCount alg = Inr res
                \<and> totalHits res = 0
                \<and> totalFaults res = length (parseReferenceString raw)
                \<and> length (steps res) = length (parseReferenceString raw)
                \<and> (\<forall>st\<in>set (steps res). status st = FAULT \<and> frames st = [] \<and> replacedPage st = None))"
proof (cases "frameCount < 0")
  case True
  then show ?thesis by (simp add: runSimulation_error)
next
  case False
  with assms have z: "frameCount = 0" by simp
  let ?pages = "parseReferenceString raw"
  let ?res = "makeResult alg ?pages (stateBefore raw 0 alg (length ?pages))"
  have r: "runSimulation raw 0 alg = Inr ?res"
    by (rule runSimulation_ok) simp_all
  from no_frames_invariant[of "length ?pages" ?pages alg] length_steps[OF r]
  have "totalHits ?res = 0 \<and> totalFaults ?res = length ?pages
        \<and> length (steps ?res) = length ?pages
        \<and> (\<forall>st\<in>set (steps ?res). status st = FAULT \<and> frames st = [] \<and> replacedPage st = None)"
    by (simp add: makeResult_def stateBefore_def)
  with r z show ?thesis by auto
qed

theorem runSimulation_nonpositive_frameCount_witness:
  "runSimulation ''1,2'' (- 1) LRU = Inl RangeError
   \<and> \<not> isl (runSimulation ''1,2'' 0 LRU)
   \<and> totalFaults (projr (runSimulation ''1,2'' 0 LRU)) = 2"
proof -
  have l: "length (parseReferenceString ''1,2'') = 2" by code_simp
  have a: "runSimulation ''1,2'' (- 1) LRU = Inl RangeError"
    using runSimulation_nonpositive_frameCount[of "- 1" "''1,2''" LRU] by simp
  obtain res where "runSimulation ''1,2'' 0 LRU = Inr res" "totalFaults res = 2"
    using runSimulation_nonpositive_frameCount[of 0 "''1,2''" LRU] l by auto
  with a show ?thesis by simp
qed

text \<open>
  Claim C1, as stated, fails: with frame count 0 the run of one reference returns a
  result, not an error.
\<close>

theorem runSimulation_zero_frames_returns:
  "runSimulation ''1'' 0 FIFO
   = Inr \<lparr>algorithm = FIFO,
          steps = [\<lparr>stepIndex = 0, requestedPage = Num 1, frames = [], status = FAULT,
                    replacedPage = None, metadata = None\<rparr>],
          totalHits = 0, totalFaults = 1, hitRatio = Num 0, faultRatio = Num 1\<rparr>"
  by code_simp

text \<open>
  Claim C2 fails on the token \<open>1.5\<close>: it is no integer literal, \<open>Number\<close> gives a number
  for it that is not \<open>NaN\<close> and not negative, and both filters keep it.
\<close>

theorem parseReferenceString_keeps_fraction:
  "parseReferenceString ''1.5'' = [Num (3 / 2)]"
  by code_simp

text \<open>
  Claim C7, as amended. The reference string of scenario A parses to the thirteen pages
  7, 0, 1, 2, 0, 3, 0, 4, 2, 3, 0, 3, 1, and the FIFO run with 3 frames returns a result
  with 11 faults and 2 hits.
\<close>

theorem scenarioA_fifo_fault_count:
  "parseReferenceString ''7,0,1,2,0,3,0,4,2,3,0,3,1''
     = [Num 7, Num 0, Num 1, Num 2, Num 0, Num 3, Num 0, Num 4, Num 2, Num 3, Num 0, Num 3, Num 1]
   \<and> \<not> isl (runSimulation ''7,0,1,2,0,3,0,4,2,3,0,3,1'' 3 FIFO)
   \<and> totalFaults (projr (runSimulation ''7,0,1,2,0,3,0,4,2,3,0,3,1'' 3 FIFO)) = 11
   \<and> totalHits (projr (runSimulation ''7,0,1,2,0,3,0,4,2,3,0,3,1'' 3 FIFO)) = 2"
  by code_simp

text \<open>Claim C7, as stated, fails: the fault count of that run is not 9.\<close>

theorem scenarioA_fifo_fault_count_not_9:
  "totalFaults (projr (runSimulation ''7,0,1,2,0,3,0,4,2,3,0,3,1'' 3 FIFO)) \<noteq> 9"
  by code_simp


text \<open>
  Claim C10. A step records an evicted page only as a FAULT step on a frame table with no
  empty frame: a HIT step and a FAULT step that fills an empty frame record none. A HIT
  step records the frames of the step before it (the initial empty table for step 0).
  Here \<open>prev\<close> is the frame table after the previous step.
\<close>

theorem evicted_only_on_full_fault:
  assumes "runSimulation raw frameCount alg = Inr res" and "k < length (steps res)"
    and "prev = (if k = 0 then replicate (nat frameCount) None else frames (steps res ! (k - 1)))"
  shows "(status (steps res ! k) = HIT \<longrightarrow>
            replacedPage (steps res ! k) = None \<and> frames (steps res ! k) = prev)
       \<and> (status (steps res ! k) = FAULT \<and> None \<in> set prev \<longrightarrow>
            replacedPage (steps res ! k) = None)
       \<and> (replacedPage (steps res ! k) \<noteq> None \<longrightarrow>
            status (steps res ! k) = FAULT \<and> None \<notin> set prev)
       \<and> (status (steps res ! k) = HIT \<longleftrightarrow> Some (requestedPage (steps res ! k)) \<in> set prev)
       \<and> requestedPage (steps res ! k) = parseReferenceString raw ! k"
proof -
  let ?pages = "parseReferenceString raw"
  let ?s = "stateBefore raw frameCount alg k"
  let ?st = "last (stepsAcc (processPage alg ?pages (nat frameCount) ?s (?pages ! k, k)))"
  have k: "k < length ?pages" using assms(2) length_steps[OF assms(1)] by simp
  have st: "steps res ! k = ?st"
    using steps_nth[OF assms(1,2)] k by (simp add: stateBefore_Suc)
  have prev: "currentFrames ?s = prev"
    using currentFrames_stateBefore[OF assms(1,2)] assms(3) by simp
  show ?thesis
  proof (cases rule: processPage_cases[where page="?pages ! k" and s="?s" and alg=alg
        and pages="?pages" and fc="nat frameCount" and i=k])
    case hit
    from last_step_hit[OF hit, of alg ?pages "nat frameCount" k] hit prev
    show ?thesis by (simp add: st requestedPage_last_step)
  next
    case (fill e)
    from last_step_fill[OF fill, of alg ?pages "nat frameCount" k] fill prev
    show ?thesis by (simp add: st requestedPage_last_step)
  next
    case (evict idx rep s2)
    have "None \<notin> set prev"
      using evict(2) prev by (simp add: indexOf_None_iff)
    with last_step_evict[OF evict] evict(1) prev
    show ?thesis by (simp add: st requestedPage_last_step)
  qed
qed

theorem evicted_only_on_full_fault_witness:
  "status (steps (projr (runSimulation ''1,2,1,3'' 2 LRU)) ! 2) = HIT
   \<and> replacedPage (steps (projr (runSimulation ''1,2,1,3'' 2 LRU)) ! 2) = None
   \<and> frames (steps (projr (runSimulation ''1,2,1,3'' 2 LRU)) ! 2)
       = frames (steps (projr (runSimulation ''1,2,1,3'' 2 LRU)) ! 1)
   \<and> status (steps (projr (runSimulation ''1,2,1,3'' 2 LRU)) ! 1) = FAULT
   \<and> None \<in> set (frames (steps (projr (runSimulation ''1,2,1,3'' 2 LRU)) ! 0))
   \<and> replacedPage (steps (projr (runSimulation ''1,2,1,3'' 2 LRU)) ! 1) = None
   \<and> replacedPage (steps (projr (runSimulation ''1,2,1,3'' 2 LRU)) ! 3) \<noteq> None
   \<and> status (steps (projr (runSimulation ''1,2,1,3'' 2 LRU)) ! 3) = FAULT
   \<and> None \<notin> set (frames (steps (projr (runSimulation ''1,2,1,3'' 2 LRU)) ! 2))"
proof -
  let ?res = "projr (runSimulation ''1,2,1,3'' 2 LRU)"
  have a: "runSimulation ''1,2,1,3'' 2 LRU = Inr ?res"
    by (simp add: runSimulation_ok)
  have l: "length (steps ?res) = 4"
    using length_steps[OF a] by code_simp
  have h: "status (steps ?res ! 2) = HIT"
    "status (steps ?res ! 1) = FAULT" "None \<in> set (frames (steps ?res ! 0))"
    "replacedPage (steps ?res ! 3) \<noteq> None"
    by code_simp+
  from evicted_only_on_full_fault[OF a, of 2 "frames (steps ?res ! 1)"]
    evicted_only_on_full_fault[OF a, of 1 "frames (steps ?res ! 0)"]
    evicted_only_on_full_fault[OF a, of 3 "frames (steps ?res ! 2)"] l h
  show ?thesis by simp
qed

subsection \<open>The pages of a run\<close>

text \<open>The last filter of the parser leaves no \<open>NaN\<close> and no negative number.\<close>

lemma parseReferenceString_ge_zero:
  "p \<in> set (parseReferenceString raw) \<Longrightarrow> ge_zero p"
  by (auto simp: parseReferenceString_def)

lemma ge_zero_not_sentinel: "ge_zero p \<Longrightarrow> p \<noteq> Num (- 1)"
  by (auto simp: ge_zero_def)

lemma ge_zero_not_NaN: "ge_zero p \<Longrightarrow> p \<noteq> NaN"
  by (auto simp: ge_zero_def)

subsection \<open>The sweep keeps its pointer and its index inside the table\<close>

lemma sweepBody_shape:
  assumes "0 < fc" and "pointer w < fc" and "length (bits w) = fc"
    and "\<forall>j. indexToReplace w = Some j \<longrightarrow> j < fc"
  shows "pointer (sweepBody fc fs w) < fc" "length (bits (sweepBody fc fs w)) = fc"
    "\<forall>j. indexToReplace (sweepBody fc fs w) = Some j \<longrightarrow> j < fc"
  using assms by (auto simp: sweepBody_def)

lemma clockSweep_shape:
  assumes "pointer w < fc" and "length (bits w) = fc"
    and "\<forall>j. indexToReplace w = Some j \<longrightarrow> j < fc"
  shows "pointer (clockSweep fc fs w) < fc \<and> length (bits (clockSweep fc fs w)) = fc
       \<and> (\<forall>j. indexToReplace (clockSweep fc fs w) = Some j \<longrightarrow> j < fc)"
  using assms
proof (induction fc fs w rule: clockSweep.induct)
  case (1 fc fs w)
  show ?case
  proof (cases "\<not> found w \<and> attempts w < fc * 3")
    case True
    from "1.prems" have pos: "0 < fc" by simp
    have "pointer (clockSweep fc fs (sweepBody fc fs w)) < fc
        \<and> length (bits (clockSweep fc fs (sweepBody fc fs w))) = fc
        \<and> (\<forall>j. indexToReplace (clockSweep fc fs (sweepBody fc fs w)) = Some j \<longrightarrow> j < fc)"
      using "1.IH"[OF True] sweepBody_shape[OF pos "1.prems"] by blast
    with True show ?thesis by (simp add: clockSweep_step)
  next
    case False
    then have "clockSweep fc fs w = w" by (cases "found w") simp_all
    with "1.prems" show ?thesis by simp
  qed
qed

lemma clockSweep_zero: "clockSweep 0 fs w = w"
  by simp

subsection \<open>Every reference keeps the shape of the state\<close>

lemma selectVictim_shape:
  assumes "wellFormed fc s" and "selectVictim alg pages fc page i s = (idx, rep, s2)"
  shows "wellFormed fc s2" "\<forall>j. idx = Some j \<longrightarrow> j < fc"
proof -
  have "wellFormed fc s2 \<and> (\<forall>j. idx = Some j \<longrightarrow> j < fc)"
  proof (cases alg)
    case FIFO
    with assms show ?thesis
      by (auto simp: selectVictim_def fifoVictim_def wellFormed_def
               split: list.splits dest: indexOf_Some_D)
  next
    case LRU
    with assms show ?thesis
      by (auto simp: selectVictim_def lruVictim_def wellFormed_def Let_def
               split: if_splits dest: indexOf_Some_D)
  next
    case OPTIMAL
    with assms show ?thesis
      by (auto simp: selectVictim_def optVictim_def wellFormed_def Let_def
               split: if_splits dest: indexOf_Some_D)
  next
    case CLOCK
    let ?w0 = "\<lparr>found = False, attempts = 0, indexToReplace = None, victimPage = None,
                pointer = clockPointer s, bits = referenceBits s\<rparr>"
    show ?thesis
    proof (cases "fc = 0")
      case True
      with CLOCK assms show ?thesis
        by (auto simp: selectVictim_def clockVictim_def clockSweep_zero wellFormed_def Let_def)
    next
      case False
      with assms(1) have "pointer ?w0 < fc" "length (bits ?w0) = fc"
        "\<forall>j. indexToReplace ?w0 = Some j \<longrightarrow> j < fc"
        by (simp_all add: wellFormed_def)
      from clockSweep_shape[OF this, of "currentFrames s"] CLOCK assms show ?thesis
        by (auto simp: selectVictim_def clockVictim_def wellFormed_def Let_def split: option.splits)
    qed
  qed
  then show "wellFormed fc s2" "\<forall>j. idx = Some j \<longrightarrow> j < fc" by simp_all
qed

lemma onHit_shape: "wellFormed fc s \<Longrightarrow> wellFormed fc (onHit alg page i s)"
  by (auto simp: onHit_def wellFormed_def split: option.splits)

lemma fillEmpty_shape: "wellFormed fc s \<Longrightarrow> wellFormed fc (fillEmpty alg fc page i e s)"
  by (auto simp: fillEmpty_def wellFormed_def Let_def)

lemma pushStep_shape: "wellFormed fc (pushStep alg page i st rep s) = wellFormed fc s"
  by (simp add: wellFormed_def pushStep_def)

lemma processPage_shape:
  assumes "wellFormed fc s"
  shows "wellFormed fc (processPage alg pages fc s (page, i))"
proof (cases rule: processPage_cases[where page=page and s=s and alg=alg and pages=pages and fc=fc and i=i])
  case hit
  have "wellFormed fc (s\<lparr>hits := hits s + 1\<rparr>)" using assms by (simp add: wellFormed_def)
  then show ?thesis by (simp add: processPage_hit[OF hit] pushStep_shape onHit_shape)
next
  case (fill e)
  have "wellFormed fc (s\<lparr>faults := faults s + 1\<rparr>)" using assms by (simp add: wellFormed_def)
  then show ?thesis by (simp add: processPage_fill[OF fill] pushStep_shape fillEmpty_shape)
next
  case (evict idx rep s2)
  have "wellFormed fc (s\<lparr>faults := faults s + 1\<rparr>)" using assms by (simp add: wellFormed_def)
  from selectVictim_shape(1)[OF this evict(3)] show ?thesis
    by (cases idx) (auto simp: processPage_evict[OF evict] pushStep_fields wellFormed_def)
qed

lemma wellFormed_initial:
  "wellFormed fc (initialState (replicate fc None) (replicate fc 0))"
  by (simp add: wellFormed_def initialState_def)

lemma wellFormed_stateBefore:
  assumes "k \<le> length (parseReferenceString raw)"
  shows "wellFormed (nat frameCount) (stateBefore raw frameCount alg k)"
  unfolding stateBefore_def
proof (rule stateAfter_induct[where P="wellFormed (nat frameCount)", OF _ _ assms])
  show "wellFormed (nat frameCount)
          (initialState (replicate (nat frameCount) None) (replicate (nat frameCount) 0))"
    by (rule wellFormed_initial)
qed (rule processPage_shape)

text \<open>
  The slot that receives the page of a fault is a slot of the table: no assignment of
  the program writes beyond the length of an array.
\<close>

lemma replaced_slot_in_table:
  assumes "wellFormed fc s"
    and "selectVictim alg pages fc page i (s\<lparr>faults := faults s + 1\<rparr>) = (Some j, rep, s2)"
  shows "j < length (currentFrames s)"
proof -
  have "wellFormed fc (s\<lparr>faults := faults s + 1\<rparr>)" using assms(1) by (simp add: wellFormed_def)
  from selectVictim_shape(2)[OF this assms(2)] assms(1) show ?thesis
    by (simp add: wellFormed_def)
qed

subsection \<open>Every reference keeps the frames free of duplicates\<close>

lemma noDuplicates_update:
  assumes "noDuplicates fs" and "Some p \<notin> set fs"
  shows "noDuplicates (fs[j := Some p])"
  unfolding noDuplicates_def
proof (intro allI impI)
  fix a b
  assume a: "a < length (fs[j := Some p])" and b: "b < length (fs[j := Some p])"
    and e: "fs[j := Some p] ! a = fs[j := Some p] ! b \<and> fs[j := Some p] ! a \<noteq> None"
  from assms(2) a b have n: "fs ! a \<noteq> Some p" "fs ! b \<noteq> Some p"
    by (auto simp: in_set_conv_nth)
  show "a = b"
  proof (cases "a = j \<or> b = j")
    case True
    with a b e n show ?thesis by (auto simp: nth_list_update split: if_splits)
  next
    case False
    with a b e assms(1) show ?thesis by (auto simp: noDuplicates_def)
  qed
qed

lemma processPage_noDuplicates:
  assumes "noDuplicates (currentFrames s)"
  shows "noDuplicates (currentFrames (processPage alg pages fc s (page, i)))"
proof (cases rule: processPage_cases[where page=page and s=s and alg=alg and pages=pages and fc=fc and i=i])
  case hit
  with assms show ?thesis by (simp add: last_step_hit(4))
next
  case (fill e)
  with assms show ?thesis by (simp add: last_step_fill(4)[OF fill] noDuplicates_update)
next
  case (evict idx rep s2)
  with assms show ?thesis
    by (cases idx) (simp_all add: last_step_evict(4)[OF evict] noDuplicates_update)
qed

lemma noDuplicates_stateBefore:
  assumes "k \<le> length (parseReferenceString raw)"
  shows "noDuplicates (currentFrames (stateBefore raw frameCount alg k))"
  unfolding stateBefore_def
proof (rule stateAfter_induct[where P="\<lambda>s. noDuplicates (currentFrames s)", OF _ _ assms])
  show "noDuplicates (currentFrames (initialState (replicate (nat frameCount) None) (replicate (nat frameCount) 0)))"
    by (simp add: noDuplicates_def initialState_def)
qed (rule processPage_noDuplicates)

text \<open>Every resident page is a page of the reference sequence.\<close>

lemma in_set_update_frames:
  "Some q \<in> set (fs[j := Some p]) \<Longrightarrow> q = p \<or> Some q \<in> set fs"
  using set_update_subset_insert[of fs j "Some p"] by auto

lemma processPage_resident:
  assumes "\<forall>p. Some p \<in> set (currentFrames s) \<longrightarrow> p \<in> set pages" and "page \<in> set pages"
  shows "\<forall>p. Some p \<in> set (currentFrames (processPage alg pages fc s (page, i))) \<longrightarrow> p \<in> set pages"
proof (intro allI impI)
  fix p
  assume p: "Some p \<in> set (currentFrames (processPage alg pages fc s (page, i)))"
  have "p = page \<or> Some p \<in> set (currentFrames s)"
  proof (cases rule: processPage_cases[where page=page and s=s and alg=alg and pages=pages and fc=fc and i=i])
    case hit
    with p show ?thesis by (simp add: last_step_hit(4))
  next
    case (fill e)
    from p have "Some p \<in> set ((currentFrames s)[e := Some page])"
      by (simp only: last_step_fill(4)[OF fill])
    then show ?thesis by (rule in_set_update_frames)
  next
    case (evict idx rep s2)
    show ?thesis
    proof (cases idx)
      case None
      with p show ?thesis by (simp add: last_step_evict(4)[OF evict])
    next
      case (Some j)
      with p have "Some p \<in> set ((currentFrames s)[j := Some page])"
        by (simp add: last_step_evict(4)[OF evict])
      then show ?thesis by (rule in_set_update_frames)
    qed
  qed
  with assms show "p \<in> set pages" by auto
qed

lemma resident_stateBefore:
  assumes "k \<le> length (parseReferenceString raw)"
    and "Some p \<in> set (currentFrames (stateBefore raw frameCount alg k))"
  shows "p \<in> set (parseReferenceString raw)"
proof -
  have "\<forall>p. Some p \<in> set (currentFrames (stateBefore raw frameCount alg k))
            \<longrightarrow> p \<in> set (parseReferenceString raw)"
    unfolding stateBefore_def
  proof (rule stateAfter_induct[where P="\<lambda>s. \<forall>p. Some p \<in> set (currentFrames s)
            \<longrightarrow> p \<in> set (parseReferenceString raw)", OF _ _ assms(1)])
    show "\<forall>p. Some p \<in> set (currentFrames (initialState (replicate (nat frameCount) None)
                 (replicate (nat frameCount) 0))) \<longrightarrow> p \<in> set (parseReferenceString raw)"
      by (simp add: initialState_def)
  next
    fix s :: SimState and j
    assume "j < length (parseReferenceString raw)"
      and "\<forall>p. Some p \<in> set (currentFrames s) \<longrightarrow> p \<in> set (parseReferenceString raw)"
    then show "\<forall>p. Some p \<in> set (currentFrames (processPage alg (parseReferenceString raw)
                 (nat frameCount) s (parseReferenceString raw ! j, j)))
               \<longrightarrow> p \<in> set (parseReferenceString raw)"
      by (intro processPage_resident) simp_all
  qed
  with assms(2) show ?thesis by simp
qed

text \<open>
  Claim C8. In every step of a run the frame table has exactly \<open>frameCount\<close> slots and no
  page sits in two of them; the run starts from the table of \<open>frameCount\<close> empty slots.
  (It holds for every run that returns, so for every run with \<open>frameCount \<ge> 1\<close>.)
\<close>

theorem frames_fixed_length_no_duplicates:
  assumes "runSimulation raw frameCount alg = Inr res" and "k < length (steps res)"
  shows "length (frames (steps res ! k)) = nat frameCount
       \<and> (\<forall>i<nat frameCount. \<forall>j<nat frameCount.
             frames (steps res ! k) ! i = frames (steps res ! k) ! j
             \<and> frames (steps res ! k) ! i \<noteq> None \<longrightarrow> i = j)
       \<and> currentFrames (stateBefore raw frameCount alg 0) = replicate (nat frameCount) None"
proof -
  have k: "Suc k \<le> length (parseReferenceString raw)"
    using assms(2) length_steps[OF assms(1)] by simp
  then have f: "frames (steps res ! k) = currentFrames (stateBefore raw frameCount alg (Suc k))"
    using steps_nth[OF assms] by (simp add: stateBefore_Suc frames_last_step)
  from wellFormed_stateBefore[OF k, of frameCount alg]
  have l: "length (frames (steps res ! k)) = nat frameCount"
    by (simp add: f wellFormed_def)
  from noDuplicates_stateBefore[OF k, of frameCount alg] l
  have "\<forall>i<nat frameCount. \<forall>j<nat frameCount.
             frames (steps res ! k) ! i = frames (steps res ! k) ! j
             \<and> frames (steps res ! k) ! i \<noteq> None \<longrightarrow> i = j"
    by (simp add: f noDuplicates_def)
  with l show ?thesis by (simp add: stateBefore_0 initialState_def)
qed

theorem frames_fixed_length_no_duplicates_witness:
  "length (frames (steps (projr (runSimulation ''1,2,3,1'' 2 CLOCK)) ! 3)) = 2
   \<and> frames (steps (projr (runSimulation ''1,2,3,1'' 2 CLOCK)) ! 3) ! 0
       \<noteq> frames (steps (projr (runSimulation ''1,2,3,1'' 2 CLOCK)) ! 3) ! 1"
proof -
  let ?res = "projr (runSimulation ''1,2,3,1'' 2 CLOCK)"
  have a: "runSimulation ''1,2,3,1'' 2 CLOCK = Inr ?res"
    by (simp add: runSimulation_ok)
  have l: "3 < length (steps ?res)"
    using length_steps[OF a] by code_simp
  have h: "frames (steps ?res ! 3) ! 0 \<noteq> None"
    by code_simp
  note t = frames_fixed_length_no_duplicates[OF a l]
  have len: "length (frames (steps ?res ! 3)) = 2"
    using t[THEN conjunct1] by simp
  have "frames (steps ?res ! 3) ! 0 \<noteq> frames (steps ?res ! 3) ! 1"
  proof
    assume e: "frames (steps ?res ! 3) ! 0 = frames (steps ?res ! 3) ! 1"
    from e h have c: "frames (steps ?res ! 3) ! 0 = frames (steps ?res ! 3) ! 1
        \<and> frames (steps ?res ! 3) ! 0 \<noteq> None"
      by (rule conjI)
    have "(0::nat) = 1"
      by (rule t[THEN conjunct2, THEN conjunct1, rule_format, of 0 1]) (simp, simp, rule c)
    then show False by simp
  qed
  with len show ?thesis by (rule conjI)
qed

subsection \<open>FIFO\<close>

lemma selectVictim_FIFO: "selectVictim FIFO pages fc page i s = fifoVictim page s"
  by (simp add: selectVictim_def)

lemma fifo_queue_hit:
  assumes "Some page \<in> set (currentFrames s)"
  shows "fifoQueue (processPage FIFO pages fc s (page, i)) = fifoQueue s"
  by (simp add: processPage_hit[OF assms] pushStep_fields onHit_def)

lemma fifo_queue_fill:
  assumes "Some page \<notin> set (currentFrames s)" and "indexOf (currentFrames s) None = Some e"
  shows "fifoQueue (processPage FIFO pages fc s (page, i)) = fifoQueue s @ [page]"
  by (simp add: processPage_fill[OF assms] pushStep_fields fillEmpty_def Let_def)

lemma fifo_evict:
  assumes "Some page \<notin> set (currentFrames s)" and "indexOf (currentFrames s) None = None"
    and "fifoQueue s = q # rest"
  shows "fifoQueue (processPage FIFO pages fc s (page, i)) = rest @ [page]"
    "replacedPage (last (stepsAcc (processPage FIFO pages fc s (page, i)))) = Some q"
    "currentFrames (processPage FIFO pages fc s (page, i))
     = (case indexOf (currentFrames s) (Some q) of
          None \<Rightarrow> currentFrames s
        | Some j \<Rightarrow> (currentFrames s)[j := Some page])"
proof -
  let ?s1 = "s\<lparr>faults := faults s + 1\<rparr>"
  have v: "selectVictim FIFO pages fc page i ?s1
           = (indexOf (currentFrames s) (Some q), Some q, ?s1\<lparr>fifoQueue := rest @ [page]\<rparr>)"
    using assms(3) by (simp add: selectVictim_FIFO fifoVictim_def)
  show "fifoQueue (processPage FIFO pages fc s (page, i)) = rest @ [page]"
    by (cases "indexOf (currentFrames s) (Some q)")
       (simp_all add: processPage_evict[OF assms(1,2) v] pushStep_fields)
  show "replacedPage (last (stepsAcc (processPage FIFO pages fc s (page, i)))) = Some q"
    by (rule last_step_evict(2)[OF assms(1,2) v])
  show "currentFrames (processPage FIFO pages fc s (page, i))
     = (case indexOf (currentFrames s) (Some q) of
          None \<Rightarrow> currentFrames s
        | Some j \<Rightarrow> (currentFrames s)[j := Some page])"
    by (rule last_step_evict(4)[OF assms(1,2) v])
qed

lemma fifo_evict_empty:
  assumes "Some page \<notin> set (currentFrames s)" and "indexOf (currentFrames s) None = None"
    and "fifoQueue s = []"
  shows "fifoQueue (processPage FIFO pages fc s (page, i)) = []"
    "replacedPage (last (stepsAcc (processPage FIFO pages fc s (page, i)))) = None"
    "currentFrames (processPage FIFO pages fc s (page, i)) = currentFrames s"
proof -
  let ?s1 = "s\<lparr>faults := faults s + 1\<rparr>"
  have v: "selectVictim FIFO pages fc page i ?s1 = (None, None, ?s1)"
    using assms(3) by (simp add: selectVictim_FIFO fifoVictim_def)
  show "fifoQueue (processPage FIFO pages fc s (page, i)) = []"
    using assms(3) by (simp add: processPage_evict[OF assms(1,2) v] pushStep_fields)
  show "replacedPage (last (stepsAcc (processPage FIFO pages fc s (page, i)))) = None"
    by (rule last_step_evict(2)[OF assms(1,2) v])
  show "currentFrames (processPage FIFO pages fc s (page, i)) = currentFrames s"
    using last_step_evict(4)[OF assms(1,2) v] by simp
qed

text \<open>The resident pages after a page is written into a slot.\<close>

lemma resident_update:
  assumes "j < length fs"
  shows "Some p \<in> set (fs[j := Some page])
         \<longleftrightarrow> p = page \<or> (\<exists>i<length fs. i \<noteq> j \<and> fs ! i = Some p)"
proof
  assume "Some p \<in> set (fs[j := Some page])"
  then obtain i where i: "i < length fs" "fs[j := Some page] ! i = Some p"
    by (auto simp: in_set_conv_nth)
  show "p = page \<or> (\<exists>i<length fs. i \<noteq> j \<and> fs ! i = Some p)"
  proof (cases "i = j")
    case True
    with i assms show ?thesis by simp
  next
    case False
    with i have "fs ! i = Some p" by simp
    with False i(1) show ?thesis by blast
  qed
next
  assume "p = page \<or> (\<exists>i<length fs. i \<noteq> j \<and> fs ! i = Some p)"
  then show "Some p \<in> set (fs[j := Some page])"
  proof
    assume "p = page"
    with assms show ?thesis by (simp add: set_update_memI)
  next
    assume "\<exists>i<length fs. i \<noteq> j \<and> fs ! i = Some p"
    then obtain i where i: "i < length fs" "i \<noteq> j" "fs ! i = Some p" by blast
    then have "fs[j := Some page] ! i = Some p" by simp
    with i(1) show ?thesis by (metis length_list_update nth_mem)
  qed
qed

lemma resident_fill:
  assumes "j < length fs" and "fs ! j = None"
  shows "{p. Some p \<in> set (fs[j := Some page])} = insert page {p. Some p \<in> set fs}"
proof -
  have "(\<exists>i<length fs. i \<noteq> j \<and> fs ! i = Some p) \<longleftrightarrow> Some p \<in> set fs" for p
  proof
    assume "\<exists>i<length fs. i \<noteq> j \<and> fs ! i = Some p"
    then show "Some p \<in> set fs" by (auto simp: in_set_conv_nth)
  next
    assume "Some p \<in> set fs"
    then obtain i where "i < length fs" "fs ! i = Some p" by (auto simp: in_set_conv_nth)
    moreover from this assms(2) have "i \<noteq> j" by auto
    ultimately show "\<exists>i<length fs. i \<noteq> j \<and> fs ! i = Some p" by blast
  qed
  then show ?thesis using resident_update[OF assms(1), of _ page] by auto
qed

lemma resident_replace:
  assumes "j < length fs" and "fs ! j = Some q" and "noDuplicates fs"
  shows "{p. Some p \<in> set (fs[j := Some page])} = insert page ({p. Some p \<in> set fs} - {q})"
proof -
  have "(\<exists>i<length fs. i \<noteq> j \<and> fs ! i = Some p) \<longleftrightarrow> Some p \<in> set fs \<and> p \<noteq> q" for p
  proof
    assume "\<exists>i<length fs. i \<noteq> j \<and> fs ! i = Some p"
    then obtain i where i: "i < length fs" "i \<noteq> j" "fs ! i = Some p" by blast
    have "p \<noteq> q"
    proof
      assume "p = q"
      with i assms(2) have "fs ! i = fs ! j \<and> fs ! i \<noteq> None" by simp
      with assms(1,3) i(1) have "i = j" unfolding noDuplicates_def by blast
      with i(2) show False by simp
    qed
    with i show "Some p \<in> set fs \<and> p \<noteq> q" by (auto simp: in_set_conv_nth)
  next
    assume a: "Some p \<in> set fs \<and> p \<noteq> q"
    then obtain i where "i < length fs" "fs ! i = Some p" by (auto simp: in_set_conv_nth)
    moreover from this a assms(2) have "i \<noteq> j" by auto
    ultimately show "\<exists>i<length fs. i \<noteq> j \<and> fs ! i = Some p" by blast
  qed
  then show ?thesis using resident_update[OF assms(1), of _ page] by auto
qed

lemma fifoInv_processPage:
  assumes "fifoInv s" and "noDuplicates (currentFrames s)"
  shows "fifoInv (processPage FIFO pages fc s (page, i))"
proof (cases "Some page \<in> set (currentFrames s)")
  case True
  with assms(1) show ?thesis
    by (simp add: fifoInv_def fifo_queue_hit last_step_hit(4))
next
  case miss: False
  then have fresh: "page \<notin> set (fifoQueue s)" using assms(1) by (simp add: fifoInv_def)
  show ?thesis
  proof (cases "indexOf (currentFrames s) None")
    case (Some e)
    from indexOf_Some_D[OF Some] have e: "e < length (currentFrames s)" "currentFrames s ! e = None"
      by simp_all
    from assms(1) fresh show ?thesis
      by (simp add: fifoInv_def fifo_queue_fill[OF miss Some] last_step_fill(4)[OF miss Some]
                    resident_fill[OF e])
  next
    case None
    show ?thesis
    proof (cases "fifoQueue s")
      case Nil
      with assms(1) show ?thesis
        by (simp add: fifoInv_def fifo_evict_empty[OF miss None Nil])
    next
      case (Cons q rest)
      with assms(1) have "Some q \<in> set (currentFrames s)" by (auto simp: fifoInv_def)
      then obtain j where j: "indexOf (currentFrames s) (Some q) = Some j"
        by (cases "indexOf (currentFrames s) (Some q)") (simp_all add: indexOf_None_iff)
      from indexOf_Some_D[OF j] have jj: "j < length (currentFrames s)" "currentFrames s ! j = Some q"
        by simp_all
      from assms(1) Cons have q: "q \<notin> set rest" "distinct rest"
        "{p. Some p \<in> set (currentFrames s)} = insert q (set rest)"
        by (auto simp: fifoInv_def)
      from fresh Cons have "page \<notin> set rest" by simp
      with q show ?thesis
        by (simp add: fifoInv_def fifo_evict[OF miss None Cons] j
                      resident_replace[OF jj assms(2)])
    qed
  qed
qed

lemma fifoInv_stateBefore:
  assumes "k \<le> length (parseReferenceString raw)"
  shows "fifoInv (stateBefore raw frameCount FIFO k)"
  using assms
proof (induction k)
  case 0
  then show ?case by (simp add: stateBefore_0 fifoInv_def initialState_def)
next
  case (Suc k)
  then have k: "k < length (parseReferenceString raw)" "k \<le> length (parseReferenceString raw)"
    by simp_all
  from fifoInv_processPage[OF Suc.IH[OF k(2)] noDuplicates_stateBefore[OF k(2)]]
  show ?case by (simp add: stateBefore_Suc[OF k(1)])
qed

text \<open>
  Claim C5. Under FIFO, let \<open>s\<close> be the state before reference \<open>k\<close> and \<open>s'\<close> the state
  after it. The queue holds exactly the resident pages, each once. A hit leaves the queue
  alone and a fault into an empty frame appends the page, so the queue lists the
  resident pages oldest first. On a fault with no empty frame (and at least one frame)
  the queue is \<open>q # rest\<close>, the evicted page is its head \<open>q\<close>, which is resident in some
  slot \<open>j\<close>; the new page takes that slot and the queue becomes \<open>rest @ [page]\<close>. (With
  no frame at all nothing is resident and nothing is evicted.)
\<close>

theorem fifo_evicts_queue_head:
  assumes "runSimulation raw frameCount FIFO = Inr res" and "k < length (steps res)"
    and "s = stateBefore raw frameCount FIFO k" and "s' = stateBefore raw frameCount FIFO (Suc k)"
    and "page = parseReferenceString raw ! k"
  shows "distinct (fifoQueue s) \<and> set (fifoQueue s) = {p. Some p \<in> set (currentFrames s)}
       \<and> (status (steps res ! k) = HIT \<longrightarrow> fifoQueue s' = fifoQueue s)
       \<and> (status (steps res ! k) = FAULT \<and> None \<in> set (currentFrames s) \<longrightarrow>
            fifoQueue s' = fifoQueue s @ [page])
       \<and> (status (steps res ! k) = FAULT \<and> None \<notin> set (currentFrames s) \<and> 0 < frameCount \<longrightarrow>
            (\<exists>q rest j. fifoQueue s = q # rest
               \<and> replacedPage (steps res ! k) = Some q
               \<and> j < nat frameCount \<and> currentFrames s ! j = Some q
               \<and> frames (steps res ! k) = (currentFrames s)[j := Some page]
               \<and> fifoQueue s' = rest @ [page]))
       \<and> (status (steps res ! k) = FAULT \<and> None \<notin> set (currentFrames s) \<and> frameCount = 0 \<longrightarrow>
            replacedPage (steps res ! k) = None \<and> fifoQueue s = [] \<and> fifoQueue s' = [])"
proof -
  let ?pages = "parseReferenceString raw"
  have k: "k < length ?pages" "k \<le> length ?pages"
    using assms(2) length_steps[OF assms(1)] by simp_all
  have s': "s' = processPage FIFO ?pages (nat frameCount) s (page, k)"
    using assms(3,4,5) by (simp add: stateBefore_Suc[OF k(1)])
  have st: "steps res ! k = last (stepsAcc s')"
    using steps_nth[OF assms(1,2)] assms(4) by simp
  have inv: "fifoInv s" using fifoInv_stateBefore[OF k(2)] assms(3) by simp
  have wf: "wellFormed (nat frameCount) s" using wellFormed_stateBefore[OF k(2)] assms(3) by simp
  have status: "status (steps res ! k) = (if Some page \<in> set (currentFrames s) then HIT else FAULT)"
    by (simp add: st s' status_last_step)
  have a: "distinct (fifoQueue s) \<and> set (fifoQueue s) = {p. Some p \<in> set (currentFrames s)}"
    using inv by (simp add: fifoInv_def)
  have b: "fifoQueue s' = fifoQueue s" if "status (steps res ! k) = HIT"
  proof -
    from that status have "Some page \<in> set (currentFrames s)" by (simp split: if_splits)
    then show ?thesis by (simp add: s' fifo_queue_hit)
  qed
  have c: "fifoQueue s' = fifoQueue s @ [page]"
    if "status (steps res ! k) = FAULT \<and> None \<in> set (currentFrames s)"
  proof -
    from that status have miss: "Some page \<notin> set (currentFrames s)" by (simp split: if_splits)
    from that obtain e where "indexOf (currentFrames s) None = Some e"
      by (cases "indexOf (currentFrames s) None") (simp_all add: indexOf_None_iff)
    from fifo_queue_fill[OF miss this] show ?thesis by (simp add: s')
  qed
  have d: "\<exists>q rest j. fifoQueue s = q # rest
               \<and> replacedPage (steps res ! k) = Some q
               \<and> j < nat frameCount \<and> currentFrames s ! j = Some q
               \<and> frames (steps res ! k) = (currentFrames s)[j := Some page]
               \<and> fifoQueue s' = rest @ [page]"
    if "status (steps res ! k) = FAULT \<and> None \<notin> set (currentFrames s) \<and> 0 < frameCount"
  proof -
    from that status have miss: "Some page \<notin> set (currentFrames s)" by (simp split: if_splits)
    from that have full: "indexOf (currentFrames s) None = None" by (simp add: indexOf_None_iff)
    from that wf have "currentFrames s \<noteq> []" by (auto simp: wellFormed_def)
    then obtain x where "x \<in> set (currentFrames s)" by (cases "currentFrames s") auto
    with that obtain p where "Some p \<in> set (currentFrames s)" by (cases x) auto
    with a obtain q rest where q: "fifoQueue s = q # rest"
      by (cases "fifoQueue s") auto
    with a have "Some q \<in> set (currentFrames s)" by auto
    then obtain j where j: "indexOf (currentFrames s) (Some q) = Some j"
      by (cases "indexOf (currentFrames s) (Some q)") (simp_all add: indexOf_None_iff)
    from indexOf_Some_D[OF j] wf have jj: "j < nat frameCount" "currentFrames s ! j = Some q"
      by (simp_all add: wellFormed_def)
    from fifo_evict[OF miss full q, of pages "nat frameCount" k for pages]
    have "replacedPage (steps res ! k) = Some q"
      "frames (steps res ! k) = (currentFrames s)[j := Some page]"
      "fifoQueue s' = rest @ [page]"
      by (simp_all add: st s' j frames_last_step)
    with q jj show ?thesis by blast
  qed
  have e: "replacedPage (steps res ! k) = None \<and> fifoQueue s = [] \<and> fifoQueue s' = []"
    if "status (steps res ! k) = FAULT \<and> None \<notin> set (currentFrames s) \<and> frameCount = 0"
  proof -
    from that status have miss: "Some page \<notin> set (currentFrames s)" by (simp split: if_splits)
    from that have full: "indexOf (currentFrames s) None = None" by (simp add: indexOf_None_iff)
    from that wf have "currentFrames s = []" by (simp add: wellFormed_def)
    with a have q: "fifoQueue s = []" by simp
    from fifo_evict_empty[OF miss full q, of pages "nat frameCount" k for pages] q
    show ?thesis by (simp add: st s')
  qed
  from a b c d e show ?thesis by blast
qed

theorem fifo_evicts_queue_head_witness:
  "fifoQueue (stateBefore ''1,2,3'' 2 FIFO 2) = [Num 1, Num 2]
   \<and> status (steps (projr (runSimulation ''1,2,3'' 2 FIFO)) ! 2) = FAULT
   \<and> None \<notin> set (currentFrames (stateBefore ''1,2,3'' 2 FIFO 2))
   \<and> replacedPage (steps (projr (runSimulation ''1,2,3'' 2 FIFO)) ! 2) = Some (Num 1)
   \<and> fifoQueue (stateBefore ''1,2,3'' 2 FIFO 3) = [Num 2, Num 3]"
proof -
  let ?res = "projr (runSimulation ''1,2,3'' 2 FIFO)"
  let ?s = "stateBefore ''1,2,3'' 2 FIFO 2"
  have r: "runSimulation ''1,2,3'' 2 FIFO = Inr ?res"
    by (simp add: runSimulation_ok)
  have l: "2 < length (steps ?res)"
    using length_steps[OF r] by code_simp
  have q: "fifoQueue ?s = [Num 1, Num 2]" by code_simp
  have f: "status (steps ?res ! 2) = FAULT" by code_simp
  have n: "None \<notin> set (currentFrames ?s)" by code_simp
  have p: "parseReferenceString ''1,2,3'' ! 2 = Num 3" by code_simp
  note t = fifo_evicts_queue_head[OF r l refl refl refl]
  from t f n obtain q' rest where
    e: "fifoQueue ?s = q' # rest" "replacedPage (steps ?res ! 2) = Some q'"
       "fifoQueue (stateBefore ''1,2,3'' 2 FIFO (Suc 2)) = rest @ [parseReferenceString ''1,2,3'' ! 2]"
    by auto
  from e(1) q have "q' = Num 1" "rest = [Num 2]" by simp_all
  with e(2,3) p have "replacedPage (steps ?res ! 2) = Some (Num 1)"
    "fifoQueue (stateBefore ''1,2,3'' 2 FIFO 3) = [Num 2, Num 3]"
    by (simp_all add: eval_nat_numeral)
  with q f n show ?thesis by simp
qed

subsection \<open>LRU\<close>

lemma firstLeast_snoc_None:
  "firstLeast key fs j v \<Longrightarrow> firstLeast key (fs @ [None]) j v"
  unfolding firstLeast_def
  by (auto simp: nth_append)

lemma firstLeast_snoc_keep:
  assumes "firstLeast key fs j v" and "key v \<le> key q"
  shows "firstLeast key (fs @ [Some q]) j v"
  using assms unfolding firstLeast_def
  by (auto simp: nth_append less_Suc_eq)

lemma firstLeast_snoc_new:
  assumes "firstLeast key fs j v" and "key q < key v"
  shows "firstLeast key (fs @ [Some q]) (length fs) q"
  unfolding firstLeast_def
proof (intro conjI allI impI)
  show "length fs < length (fs @ [Some q])" by simp
  show "(fs @ [Some q]) ! length fs = Some q" by simp
next
  fix i w
  assume i: "i < length (fs @ [Some q])" and w: "(fs @ [Some q]) ! i = Some w"
  show "key q \<le> key w"
  proof (cases "i < length fs")
    case True
    with w have "fs ! i = Some w" by (simp add: nth_append)
    with assms(1) True have "key v \<le> key w" unfolding firstLeast_def by blast
    with assms(2) show ?thesis by simp
  next
    case False
    with i w show ?thesis by (simp add: nth_append)
  qed
next
  fix i w
  assume i: "i < length fs" and w: "(fs @ [Some q]) ! i = Some w"
  then have "fs ! i = Some w" by (simp add: nth_append)
  with assms(1) i have "key v \<le> key w" unfolding firstLeast_def by blast
  with assms(2) show "key q < key w" by simp
qed

lemma firstLeast_first:
  assumes "\<forall>x\<in>set fs. x = None"
  shows "firstLeast key (fs @ [Some q]) (length fs) q"
  unfolding firstLeast_def
proof (intro conjI allI impI)
  show "length fs < length (fs @ [Some q])" by simp
  show "(fs @ [Some q]) ! length fs = Some q" by simp
next
  fix i w
  assume i: "i < length (fs @ [Some q])" and w: "(fs @ [Some q]) ! i = Some w"
  show "key q \<le> key w"
  proof (cases "i < length fs")
    case True
    with assms have "fs ! i = None" by simp
    with w True show ?thesis by (simp add: nth_append)
  next
    case False
    with i w show ?thesis by (simp add: nth_append)
  qed
next
  fix i w
  assume i: "i < length fs" and w: "(fs @ [Some q]) ! i = Some w"
  with assms have "fs ! i = None" by simp
  with w i show "key q < key w" by (simp add: nth_append)
qed

text \<open>
  The scan of LRU: with no page in the frames it ends in \<open>(Infinity, -1)\<close>, otherwise in
  the first page of least last access, with that access time.
\<close>

lemma lruScan_spec:
  "if \<forall>x\<in>set fs. x = None then lruScan m fs = (Infinity, Num (- 1))
   else (\<exists>j v. lruScan m fs = (Fin (lastAccessOf m v), v) \<and> firstLeast (lastAccessOf m) fs j v)"
proof (induction fs rule: rev_induct)
  case Nil
  then show ?case by (simp add: lruScan_def)
next
  case (snoc x fs)
  have step: "lruScan m (fs @ [x]) = lruScanStep m (lruScan m fs) x"
    by (simp add: lruScan_def)
  show ?case
  proof (cases x)
    case None
    show ?thesis
    proof (cases "\<forall>x\<in>set fs. x = None")
      case True
      with snoc None step show ?thesis by (simp add: lruScanStep_def)
    next
      case False
      with snoc obtain j v where
        "lruScan m fs = (Fin (lastAccessOf m v), v)" "firstLeast (lastAccessOf m) fs j v"
        by auto
      with None step firstLeast_snoc_None[of "lastAccessOf m" fs j v]
      have "lruScan m (fs @ [x]) = (Fin (lastAccessOf m v), v)
            \<and> firstLeast (lastAccessOf m) (fs @ [x]) j v"
        by (simp add: lruScanStep_def)
      moreover from False have "\<not> (\<forall>y\<in>set (fs @ [x]). y = None)" by auto
      ultimately show ?thesis by (simp only: if_False) blast
    qed
  next
    case (Some q)
    then have ne: "\<not> (\<forall>y\<in>set (fs @ [x]). y = None)" by auto
    have "\<exists>j v. lruScan m (fs @ [x]) = (Fin (lastAccessOf m v), v)
                \<and> firstLeast (lastAccessOf m) (fs @ [x]) j v"
    proof (cases "\<forall>x\<in>set fs. x = None")
      case True
      with snoc have "lruScan m fs = (Infinity, Num (- 1))" by simp
      with Some step have "lruScan m (fs @ [x]) = (Fin (lastAccessOf m q), q)"
        by (simp add: lruScanStep_def)
      with firstLeast_first[OF True, of "lastAccessOf m" q] Some show ?thesis by blast
    next
      case False
      with snoc obtain j v where
        jv: "lruScan m fs = (Fin (lastAccessOf m v), v)" "firstLeast (lastAccessOf m) fs j v"
        by auto
      show ?thesis
      proof (cases "lastAccessOf m q < lastAccessOf m v")
        case True
        with jv(1) Some step have "lruScan m (fs @ [x]) = (Fin (lastAccessOf m q), q)"
          by (simp add: lruScanStep_def)
        with firstLeast_snoc_new[OF jv(2) True] Some show ?thesis by blast
      next
        case False
        with jv(1) Some step have "lruScan m (fs @ [x]) = (Fin (lastAccessOf m v), v)"
          by (simp add: lruScanStep_def)
        moreover from False have "lastAccessOf m v \<le> lastAccessOf m q" by simp
        from firstLeast_snoc_keep[OF jv(2) this] Some
        have "firstLeast (lastAccessOf m) (fs @ [x]) j v" by simp
        ultimately show ?thesis by blast
      qed
    qed
    with ne show ?thesis by (simp only: if_False)
  qed
qed

text \<open>The slot found by \<open>indexOf\<close> for the page of a \<open>firstLeast\<close> is its slot.\<close>

lemma firstLeast_indexOf:
  assumes "firstLeast key fs j v"
  shows "indexOf fs (Some v) = Some j"
proof -
  from assms have j: "j < length fs" "fs ! j = Some v"
    and lt: "\<forall>i<j. \<forall>w. fs ! i = Some w \<longrightarrow> key v < key w"
    unfolding firstLeast_def by auto
  from j have "Some v \<in> set fs" by (metis nth_mem)
  then obtain i where i: "indexOf fs (Some v) = Some i"
    by (cases "indexOf fs (Some v)") (simp_all add: indexOf_None_iff)
  from indexOf_Some_D[OF i] have ii: "i < length fs" "fs ! i = Some v" "\<forall>a<i. fs ! a \<noteq> Some v"
    by auto
  have "\<not> i < j" using lt ii(2) by auto
  moreover have "\<not> j < i" using ii(3) j(2) by auto
  ultimately have "i = j" by simp
  with i show ?thesis by simp
qed

lemma selectVictim_LRU: "selectVictim LRU pages fc page i s = lruVictim page i s"
  by (simp add: selectVictim_def)

text \<open>Under LRU every reference, hit or fault, records the step for its page.\<close>

lemma lruMap_processPage:
  "lruMap (processPage LRU pages fc s (page, i)) = (lruMap s)(page \<mapsto> i)"
proof (cases rule: processPage_cases[where page=page and s=s and alg=LRU and pages=pages and fc=fc and i=i])
  case hit
  then show ?thesis by (simp add: processPage_hit pushStep_fields onHit_def)
next
  case (fill e)
  then show ?thesis by (simp add: processPage_fill pushStep_fields fillEmpty_def Let_def)
next
  case (evict idx rep s2)
  from evict(3) have "lruMap s2 = (lruMap s)(page \<mapsto> i)"
    by (auto simp: selectVictim_LRU lruVictim_def Let_def split: if_splits)
  then show ?thesis
    by (cases idx) (simp_all add: processPage_evict[OF evict] pushStep_fields)
qed

lemma lruMap_stateBefore:
  assumes "k \<le> length (parseReferenceString raw)"
  shows "lruMap (stateBefore raw frameCount LRU k) p = Some t
         \<longleftrightarrow> t < k \<and> parseReferenceString raw ! t = p
             \<and> (\<forall>u. t < u \<and> u < k \<longrightarrow> parseReferenceString raw ! u \<noteq> p)"
  using assms
proof (induction k arbitrary: t)
  case 0
  then show ?case by (simp add: stateBefore_0 initialState_def)
next
  case (Suc k)
  let ?pages = "parseReferenceString raw"
  let ?m = "lruMap (stateBefore raw frameCount LRU k)"
  let ?R = "\<lambda>n. t < n \<and> ?pages ! t = p \<and> (\<forall>u. t < u \<and> u < n \<longrightarrow> ?pages ! u \<noteq> p)"
  from Suc.prems have k: "k < length ?pages" "k \<le> length ?pages" by simp_all
  have upd: "lruMap (stateBefore raw frameCount LRU (Suc k)) = ?m(?pages ! k \<mapsto> k)"
    by (simp add: stateBefore_Suc[OF k(1)] lruMap_processPage)
  have ih: "?m p = Some t \<longleftrightarrow> ?R k" by (rule Suc.IH[OF k(2)])
  show ?case
  proof (cases "p = ?pages ! k")
    case True
    have l: "(?m(?pages ! k \<mapsto> k)) p = Some t \<longleftrightarrow> t = k"
      using True by auto
    have "t = k \<longleftrightarrow> ?R (Suc k)"
    proof
      assume tk: "t = k"
      have "?pages ! u \<noteq> p" if "t < u \<and> u < Suc k" for u
        using that tk by linarith
      with tk True show "?R (Suc k)" by blast
    next
      assume a: "?R (Suc k)"
      show "t = k"
      proof (rule ccontr)
        assume "t \<noteq> k"
        with a have "t < k" by simp
        with a have "?pages ! k \<noteq> p" by simp
        with True show False by simp
      qed
    qed
    with l show ?thesis unfolding upd by (rule trans)
  next
    case False
    have l: "(?m(?pages ! k \<mapsto> k)) p = Some t \<longleftrightarrow> ?m p = Some t"
      using False by simp
    have "?R k \<longleftrightarrow> ?R (Suc k)"
    proof
      assume a: "?R k"
      have "?pages ! u \<noteq> p" if "t < u \<and> u < Suc k" for u
      proof (cases "u = k")
        case True
        with False show ?thesis by simp
      next
        case False
        with that have "t < u \<and> u < k" by simp
        with a show ?thesis by blast
      qed
      with a show "?R (Suc k)" by simp
    next
      assume a: "?R (Suc k)"
      with False have "t \<noteq> k" by auto
      with a have "t < k" by simp
      moreover have "?pages ! u \<noteq> p" if "t < u \<and> u < k" for u
      proof -
        from that have "t < u \<and> u < Suc k" by simp
        with a show ?thesis by blast
      qed
      ultimately show "?R k" using a by simp
    qed
    with l ih show ?thesis unfolding upd by simp
  qed
qed

text \<open>Every resident page has a recorded access time.\<close>

lemma lru_recorded_processPage:
  assumes "\<forall>w. Some w \<in> set (currentFrames s) \<longrightarrow> w \<in> dom (lruMap s)"
  shows "\<forall>w. Some w \<in> set (currentFrames (processPage LRU pages fc s (page, i)))
             \<longrightarrow> w \<in> dom (lruMap (processPage LRU pages fc s (page, i)))"
proof (intro allI impI)
  fix w
  assume w: "Some w \<in> set (currentFrames (processPage LRU pages fc s (page, i)))"
  have "w = page \<or> Some w \<in> set (currentFrames s)"
  proof (cases rule: processPage_cases[where page=page and s=s and alg=LRU and pages=pages and fc=fc and i=i])
    case hit
    with w show ?thesis by (simp add: last_step_hit(4))
  next
    case (fill e)
    from w have "Some w \<in> set ((currentFrames s)[e := Some page])"
      by (simp only: last_step_fill(4)[OF fill])
    then show ?thesis by (rule in_set_update_frames)
  next
    case (evict idx rep s2)
    show ?thesis
    proof (cases idx)
      case None
      with w show ?thesis by (simp add: last_step_evict(4)[OF evict])
    next
      case (Some j)
      with w have "Some w \<in> set ((currentFrames s)[j := Some page])"
        by (simp add: last_step_evict(4)[OF evict])
      then show ?thesis by (rule in_set_update_frames)
    qed
  qed
  with assms show "w \<in> dom (lruMap (processPage LRU pages fc s (page, i)))"
    by (auto simp: lruMap_processPage)
qed

lemma lru_recorded_stateBefore:
  assumes "k \<le> length (parseReferenceString raw)"
  shows "\<forall>w. Some w \<in> set (currentFrames (stateBefore raw frameCount LRU k))
             \<longrightarrow> w \<in> dom (lruMap (stateBefore raw frameCount LRU k))"
  using assms
proof (induction k)
  case 0
  then show ?case by (simp add: stateBefore_0 initialState_def)
next
  case (Suc k)
  then have k: "k < length (parseReferenceString raw)" "k \<le> length (parseReferenceString raw)"
    by simp_all
  from lru_recorded_processPage[OF Suc.IH[OF k(2)]]
  show ?case by (simp only: stateBefore_Suc[OF k(1)])
qed

text \<open>The eviction of LRU on a full, non-empty table.\<close>

lemma lru_evict:
  assumes miss: "Some page \<notin> set (currentFrames s)" and full: "indexOf (currentFrames s) None = None"
    and ne: "currentFrames s \<noteq> []"
    and valid: "\<forall>w. Some w \<in> set (currentFrames s) \<longrightarrow> w \<noteq> Num (- 1)"
  shows "\<exists>j v. firstLeast (lastAccessOf (lruMap s)) (currentFrames s) j v
           \<and> replacedPage (last (stepsAcc (processPage LRU pages fc s (page, i)))) = Some v
           \<and> currentFrames (processPage LRU pages fc s (page, i)) = (currentFrames s)[j := Some page]"
proof -
  let ?fs = "currentFrames s"
  let ?s1 = "s\<lparr>faults := faults s + 1\<rparr>"
  from ne obtain x where x: "x \<in> set ?fs" by (cases ?fs) auto
  from full have "None \<notin> set ?fs" by (simp add: indexOf_None_iff)
  with x have "x \<noteq> None" by metis
  with x have "\<not> (\<forall>x\<in>set ?fs. x = None)" by blast
  with lruScan_spec[of ?fs "lruMap s"] obtain j v where
    jv: "lruScan (lruMap s) ?fs = (Fin (lastAccessOf (lruMap s) v), v)"
        "firstLeast (lastAccessOf (lruMap s)) ?fs j v"
    by (simp only: if_False) blast
  from jv(2) have "?fs ! j = Some v" "j < length ?fs" unfolding firstLeast_def by auto
  then have "Some v \<in> set ?fs" by (metis nth_mem)
  with valid have "v \<noteq> Num (- 1)" by simp
  with jv(1) firstLeast_indexOf[OF jv(2)]
  have v: "selectVictim LRU pages fc page i ?s1
           = (Some j, Some v, ?s1\<lparr>lruMap := (lruMap s)(page \<mapsto> i)\<rparr>)"
    by (simp add: selectVictim_LRU lruVictim_def Let_def)
  from last_step_evict(2,4)[OF miss full v] jv(2) show ?thesis by auto
qed

text \<open>With frame count 0 no step records an evicted page.\<close>

lemma zero_frames_step:
  assumes "runSimulation raw 0 alg = Inr res" and "k < length (steps res)"
  shows "replacedPage (steps res ! k) = None"
proof -
  let ?pages = "parseReferenceString raw"
  have "steps res = stepsAcc (stateAfter alg ?pages 0 (initialState [] []) (length ?pages))"
    using runSimulation_Inr_D(3)[OF assms(1)] by (simp add: makeResult_def stateBefore_def)
  with no_frames_invariant[of "length ?pages" ?pages alg]
  have "\<forall>st\<in>set (steps res). replacedPage st = None" by simp
  with assms(2) show ?thesis by (metis nth_mem)
qed

text \<open>
  Claim C4. Under LRU, let \<open>s\<close> be the state before reference \<open>k\<close> and \<open>s'\<close> the state after
  it. The recorded index of a page is the step of its latest reference before \<open>k\<close>, and
  every resident page has one. Every reference, a hit in particular, records step \<open>k\<close>
  for its page. On a fault with no empty frame (and at least one frame) the evicted page
  \<open>v\<close> sits in a slot \<open>j\<close>, its recorded index is at most that of every resident page and
  smaller than that of every page in an earlier slot, and the new page takes slot \<open>j\<close>.
  (With no frame at all nothing is evicted.)
\<close>

theorem lru_evicts_least_recently_used:
  assumes "runSimulation raw frameCount LRU = Inr res" and "k < length (steps res)"
    and "s = stateBefore raw frameCount LRU k" and "s' = stateBefore raw frameCount LRU (Suc k)"
    and "page = parseReferenceString raw ! k"
  shows "(\<forall>p t. lruMap s p = Some t \<longleftrightarrow>
            t < k \<and> parseReferenceString raw ! t = p
            \<and> (\<forall>u. t < u \<and> u < k \<longrightarrow> parseReferenceString raw ! u \<noteq> p))
       \<and> (\<forall>w. Some w \<in> set (currentFrames s) \<longrightarrow> (\<exists>t. lruMap s w = Some t))
       \<and> lruMap s' = (lruMap s)(page \<mapsto> k)
       \<and> (status (steps res ! k) = HIT \<longrightarrow> lruMap s' page = Some k)
       \<and> (status (steps res ! k) = FAULT \<and> None \<notin> set (currentFrames s) \<and> 0 < frameCount \<longrightarrow>
            (\<exists>j v tv. replacedPage (steps res ! k) = Some v
               \<and> j < nat frameCount \<and> currentFrames s ! j = Some v \<and> lruMap s v = Some tv
               \<and> (\<forall>i<nat frameCount. \<forall>w tw.
                     currentFrames s ! i = Some w \<and> lruMap s w = Some tw \<longrightarrow> tv \<le> tw)
               \<and> (\<forall>i<j. \<forall>w tw.
                     currentFrames s ! i = Some w \<and> lruMap s w = Some tw \<longrightarrow> tv < tw)
               \<and> frames (steps res ! k) = (currentFrames s)[j := Some page]))
       \<and> (status (steps res ! k) = FAULT \<and> None \<notin> set (currentFrames s) \<and> frameCount = 0 \<longrightarrow>
            replacedPage (steps res ! k) = None)"
proof -
  let ?pages = "parseReferenceString raw"
  have k: "k < length ?pages" "k \<le> length ?pages"
    using assms(2) length_steps[OF assms(1)] by simp_all
  have s': "s' = processPage LRU ?pages (nat frameCount) s (page, k)"
    using assms(3,4,5) by (simp add: stateBefore_Suc[OF k(1)])
  have st: "steps res ! k = last (stepsAcc s')"
    using steps_nth[OF assms(1,2)] assms(4) by simp
  have wf: "wellFormed (nat frameCount) s" using wellFormed_stateBefore[OF k(2)] assms(3) by simp
  have status: "status (steps res ! k) = (if Some page \<in> set (currentFrames s) then HIT else FAULT)"
    by (simp add: st s' status_last_step)
  have a: "\<forall>p t. lruMap s p = Some t \<longleftrightarrow>
            t < k \<and> ?pages ! t = p \<and> (\<forall>u. t < u \<and> u < k \<longrightarrow> ?pages ! u \<noteq> p)"
    using lruMap_stateBefore[OF k(2), of frameCount] assms(3) by simp
  have rec: "\<forall>w. Some w \<in> set (currentFrames s) \<longrightarrow> w \<in> dom (lruMap s)"
    using lru_recorded_stateBefore[OF k(2), of frameCount] assms(3) by simp
  then have b: "\<forall>w. Some w \<in> set (currentFrames s) \<longrightarrow> (\<exists>t. lruMap s w = Some t)"
    by (simp add: dom_def)
  have c: "lruMap s' = (lruMap s)(page \<mapsto> k)"
    by (simp add: s' lruMap_processPage)
  then have d: "lruMap s' page = Some k" by simp
  have e: "\<exists>j v tv. replacedPage (steps res ! k) = Some v
               \<and> j < nat frameCount \<and> currentFrames s ! j = Some v \<and> lruMap s v = Some tv
               \<and> (\<forall>i<nat frameCount. \<forall>w tw.
                     currentFrames s ! i = Some w \<and> lruMap s w = Some tw \<longrightarrow> tv \<le> tw)
               \<and> (\<forall>i<j. \<forall>w tw.
                     currentFrames s ! i = Some w \<and> lruMap s w = Some tw \<longrightarrow> tv < tw)
               \<and> frames (steps res ! k) = (currentFrames s)[j := Some page]"
    if h: "status (steps res ! k) = FAULT \<and> None \<notin> set (currentFrames s) \<and> 0 < frameCount"
  proof -
    from h status have miss: "Some page \<notin> set (currentFrames s)" by (simp split: if_splits)
    from h have full: "indexOf (currentFrames s) None = None" by (simp add: indexOf_None_iff)
    from h wf have ne: "currentFrames s \<noteq> []" by (auto simp: wellFormed_def)
    have valid: "\<forall>w. Some w \<in> set (currentFrames s) \<longrightarrow> w \<noteq> Num (- 1)"
      using resident_stateBefore[OF k(2), of _ frameCount LRU] assms(3)
        parseReferenceString_ge_zero ge_zero_not_sentinel by blast
    from lru_evict[OF miss full ne valid, of ?pages "nat frameCount" k] obtain j v where
      jv: "firstLeast (lastAccessOf (lruMap s)) (currentFrames s) j v"
          "replacedPage (steps res ! k) = Some v"
          "frames (steps res ! k) = (currentFrames s)[j := Some page]"
      by (auto simp: st s' frames_last_step)
    from jv(1) wf have j: "j < nat frameCount" "currentFrames s ! j = Some v"
      and le: "\<forall>i<nat frameCount. \<forall>w. currentFrames s ! i = Some w
                 \<longrightarrow> lastAccessOf (lruMap s) v \<le> lastAccessOf (lruMap s) w"
      and lt: "\<forall>i<j. \<forall>w. currentFrames s ! i = Some w
                 \<longrightarrow> lastAccessOf (lruMap s) v < lastAccessOf (lruMap s) w"
      unfolding firstLeast_def wellFormed_def by auto
    from j wf have "Some v \<in> set (currentFrames s)"
      unfolding wellFormed_def by (metis nth_mem)
    with b obtain tv where tv: "lruMap s v = Some tv" by blast
    have le': "tv \<le> tw" if "i < nat frameCount" "currentFrames s ! i = Some w" "lruMap s w = Some tw"
      for i w tw
      using le that tv by (auto simp: lastAccessOf_def)
    have lt': "tv < tw" if "i < j" "currentFrames s ! i = Some w" "lruMap s w = Some tw"
      for i w tw
      using lt that tv by (auto simp: lastAccessOf_def)
    from jv(2,3) j tv le' lt' show ?thesis by blast
  qed
  have f: "replacedPage (steps res ! k) = None" if "frameCount = 0"
    using zero_frames_step[OF _ assms(2)] assms(1) that by simp
  from a b c d e f show ?thesis by blast
qed

theorem lru_evicts_least_recently_used_witness:
  "status (steps (projr (runSimulation ''1,2,1,3'' 2 LRU)) ! 3) = FAULT
   \<and> currentFrames (stateBefore ''1,2,1,3'' 2 LRU 3) = [Some (Num 1), Some (Num 2)]
   \<and> lruMap (stateBefore ''1,2,1,3'' 2 LRU 3) (Num 1) = Some 2
   \<and> lruMap (stateBefore ''1,2,1,3'' 2 LRU 3) (Num 2) = Some 1
   \<and> replacedPage (steps (projr (runSimulation ''1,2,1,3'' 2 LRU)) ! 3) = Some (Num 2)
   \<and> status (steps (projr (runSimulation ''1,2,1,3'' 2 LRU)) ! 2) = HIT"
proof -
  let ?res = "projr (runSimulation ''1,2,1,3'' 2 LRU)"
  let ?s = "stateBefore ''1,2,1,3'' 2 LRU 3"
  have r: "runSimulation ''1,2,1,3'' 2 LRU = Inr ?res"
    by (simp add: runSimulation_ok)
  have l: "3 < length (steps ?res)" "2 < length (steps ?res)"
    using length_steps[OF r] by code_simp+
  have f: "status (steps ?res ! 3) = FAULT" by code_simp
  have h: "status (steps ?res ! 2) = HIT" by code_simp
  have fr: "currentFrames ?s = [Some (Num 1), Some (Num 2)]" by code_simp
  have p: "parseReferenceString ''1,2,1,3'' ! 2 = Num 1" by code_simp
  have m2: "lruMap ?s (Num 2) = Some 1" by code_simp
  have m1: "lruMap ?s (Num 1) = Some 2"
    using lru_evicts_least_recently_used[OF r l(2) refl refl refl] h p
    by (simp add: eval_nat_numeral)
  note t = lru_evicts_least_recently_used[OF r l(1) refl refl refl]
  from fr have n: "None \<notin> set (currentFrames ?s)" by simp
  from t f n obtain j v tv where
    e: "replacedPage (steps ?res ! 3) = Some v" "j < nat 2" "currentFrames ?s ! j = Some v"
       "lruMap ?s v = Some tv"
       "\<forall>i<nat 2. \<forall>w tw. currentFrames ?s ! i = Some w \<and> lruMap ?s w = Some tw \<longrightarrow> tv \<le> tw"
    by auto
  from e(2) have "j = 0 \<or> j = 1" by auto
  with e(3) fr have v: "v = Num 1 \<or> v = Num 2" by auto
  have "v \<noteq> Num 1"
  proof
    assume "v = Num 1"
    with e(4) m1 have "tv = 2" by simp
    moreover from e(5) fr m2 have "tv \<le> 1"
      by (auto simp: nth_Cons' dest!: spec[where x=1])
    ultimately show False by simp
  qed
  with v e(1) have "replacedPage (steps ?res ! 3) = Some (Num 2)" by simp
  with f fr m1 m2 h show ?thesis by simp
qed

subsection \<open>OPTIMAL\<close>

lemma optChoice_snoc_None:
  assumes "optChoice nu fs j v"
  shows "optChoice nu (fs @ [None]) j v"
proof (cases "nu v")
  case None
  with assms show ?thesis
    unfolding optChoice_def by (auto simp: nth_append)
next
  case (Some d)
  with assms have j: "j < length fs" "fs ! j = Some v"
    and le: "\<forall>i<length fs. \<forall>w. fs ! i = Some w \<longrightarrow> (\<exists>e. nu w = Some e \<and> e \<le> d)"
    and lt: "\<forall>i<j. \<forall>w. fs ! i = Some w \<longrightarrow> (\<exists>e. nu w = Some e \<and> e < d)"
    unfolding optChoice_def by auto
  have le': "\<exists>e. nu w = Some e \<and> e \<le> d"
    if "i < length (fs @ [None])" "(fs @ [None]) ! i = Some w" for i w
  proof (cases "i < length fs")
    case True
    with that le show ?thesis by (simp add: nth_append)
  next
    case False
    with that show ?thesis by (simp add: nth_append)
  qed
  have lt': "\<exists>e. nu w = Some e \<and> e < d" if "i < j" "(fs @ [None]) ! i = Some w" for i w
    using that lt j(1) by (simp add: nth_append)
  from j le' lt' Some show ?thesis
    unfolding optChoice_def by (simp add: nth_append)
qed

text \<open>The page of the last slot replaces a page that is used again, being used later or never.\<close>

lemma optChoice_snoc_new:
  assumes "optChoice nu fs j v" and "nu v = Some d"
    and "nu q = None \<or> (\<exists>n. nu q = Some n \<and> d < n)"
  shows "optChoice nu (fs @ [Some q]) (length fs) q"
proof -
  from assms(1,2) have le: "\<forall>i<length fs. \<forall>w. fs ! i = Some w \<longrightarrow> (\<exists>e. nu w = Some e \<and> e \<le> d)"
    unfolding optChoice_def by auto
  show ?thesis
  proof (cases "nu q")
    case None
    have "nu w \<noteq> None" if "i < length fs" "(fs @ [Some q]) ! i = Some w" for i w
      using that le by (auto simp: nth_append)
    with None show ?thesis unfolding optChoice_def by simp
  next
    case (Some n)
    with assms(3) have dn: "d < n" by simp
    have le': "\<exists>e. nu w = Some e \<and> e \<le> n"
      if "i < length (fs @ [Some q])" "(fs @ [Some q]) ! i = Some w" for i w
    proof (cases "i < length fs")
      case True
      with that le obtain e where "nu w = Some e" "e \<le> d" by (auto simp: nth_append)
      with dn show ?thesis by simp
    next
      case False
      with that Some show ?thesis by (simp add: nth_append)
    qed
    have lt': "\<exists>e. nu w = Some e \<and> e < n" if "i < length fs" "(fs @ [Some q]) ! i = Some w" for i w
    proof -
      from that le obtain e where "nu w = Some e" "e \<le> d" by (auto simp: nth_append)
      with dn show ?thesis by simp
    qed
    from le' lt' Some show ?thesis unfolding optChoice_def by simp
  qed
qed

text \<open>The page of the last slot leaves the choice alone: the choice is never used again, or the
  new page is used again no later than the choice.\<close>

lemma optChoice_snoc_keep:
  assumes "optChoice nu fs j v"
    and "nu v = None \<or> (\<exists>d n. nu v = Some d \<and> nu q = Some n \<and> n \<le> d)"
  shows "optChoice nu (fs @ [Some q]) j v"
proof (cases "nu v")
  case None
  with assms(1) show ?thesis
    unfolding optChoice_def by (auto simp: nth_append)
next
  case (Some d)
  with assms(2) obtain n where n: "nu q = Some n" "n \<le> d" by auto
  from assms(1) Some have j: "j < length fs" "fs ! j = Some v"
    and le: "\<forall>i<length fs. \<forall>w. fs ! i = Some w \<longrightarrow> (\<exists>e. nu w = Some e \<and> e \<le> d)"
    and lt: "\<forall>i<j. \<forall>w. fs ! i = Some w \<longrightarrow> (\<exists>e. nu w = Some e \<and> e < d)"
    unfolding optChoice_def by auto
  have le': "\<exists>e. nu w = Some e \<and> e \<le> d"
    if "i < length (fs @ [Some q])" "(fs @ [Some q]) ! i = Some w" for i w
  proof (cases "i < length fs")
    case True
    with that le show ?thesis by (simp add: nth_append)
  next
    case False
    with that n show ?thesis by (simp add: nth_append)
  qed
  have lt': "\<exists>e. nu w = Some e \<and> e < d" if "i < j" "(fs @ [Some q]) ! i = Some w" for i w
    using that lt j(1) by (simp add: nth_append)
  from j le' lt' Some show ?thesis
    unfolding optChoice_def by (simp add: nth_append)
qed

lemma optChoice_first:
  assumes "\<forall>x\<in>set fs. x = None"
  shows "optChoice nu (fs @ [Some q]) (length fs) q"
proof -
  have none: "fs ! i = None" if "i < length fs" for i using assms that by simp
  have a: "nu w \<noteq> None \<and> (\<exists>e. nu w = Some e \<and> e < d)"
    if "i < length fs" "(fs @ [Some q]) ! i = Some w" for i w d
    using that none by (simp add: nth_append)
  have b: "\<exists>e. nu w = Some e \<and> e \<le> d"
    if "i < length (fs @ [Some q])" "(fs @ [Some q]) ! i = Some w" "nu q = Some d" for i w d
  proof (cases "i < length fs")
    case True
    with that none show ?thesis by (simp add: nth_append)
  next
    case False
    with that show ?thesis by (simp add: nth_append)
  qed
  show ?thesis
  proof (cases "nu q")
    case None
    with a show ?thesis unfolding optChoice_def by simp
  next
    case (Some d)
    with a b show ?thesis unfolding optChoice_def by simp
  qed
qed

text \<open>
  The scan of OPTIMAL: with no page in the frames it ends in \<open>(-1, -1, false)\<close>, otherwise
  in the choice above, with its distance and whether that is infinite.
\<close>

lemma optScan_spec:
  "if \<forall>x\<in>set fs. x = None then optScan pages k fs = (Fin (- 1), Num (- 1), False)
   else (\<exists>j v. optChoice (nextUse pages k) fs j v
          \<and> optScan pages k fs
              = ((case nextUse pages k v of None \<Rightarrow> Infinity | Some d \<Rightarrow> Fin (int d)), v,
                 nextUse pages k v = None))"
proof (induction fs rule: rev_induct)
  case Nil
  then show ?case by (simp add: optScan_def)
next
  case (snoc x fs)
  let ?nu = "nextUse pages k"
  let ?key = "\<lambda>v. case ?nu v of None \<Rightarrow> Infinity | Some d \<Rightarrow> Fin (int d)"
  have step: "optScan pages k (fs @ [x]) = optScanStep (drop (k + 1) pages) (optScan pages k fs) x"
    by (simp add: optScan_def)
  show ?case
  proof (cases x)
    case None
    show ?thesis
    proof (cases "\<forall>x\<in>set fs. x = None")
      case True
      with snoc None step show ?thesis by (simp add: optScanStep_def)
    next
      case False
      with snoc obtain j v where
        jv: "optChoice ?nu fs j v" "optScan pages k fs = (?key v, v, ?nu v = None)"
        by auto
      from jv(2) None step have "optScan pages k (fs @ [x]) = (?key v, v, ?nu v = None)"
        by (simp add: optScanStep_def)
      with optChoice_snoc_None[OF jv(1)] None
      have "\<exists>j v. optChoice ?nu (fs @ [x]) j v
                \<and> optScan pages k (fs @ [x]) = (?key v, v, ?nu v = None)"
        by blast
      moreover from False have "\<not> (\<forall>y\<in>set (fs @ [x]). y = None)" by auto
      ultimately show ?thesis by (simp only: if_False)
    qed
  next
    case (Some q)
    then have ne: "\<not> (\<forall>y\<in>set (fs @ [x]). y = None)" by auto
    have "\<exists>j v. optChoice ?nu (fs @ [x]) j v
              \<and> optScan pages k (fs @ [x]) = (?key v, v, ?nu v = None)"
    proof (cases "\<forall>x\<in>set fs. x = None")
      case True
      with snoc have "optScan pages k fs = (Fin (- 1), Num (- 1), False)" by simp
      with Some step have "optScan pages k (fs @ [x]) = (?key q, q, ?nu q = None)"
        by (cases "?nu q") (simp_all add: optScanStep_def nextUse_def)
      with optChoice_first[OF True, of ?nu q] Some show ?thesis by blast
    next
      case False
      with snoc obtain j v where
        jv: "optChoice ?nu fs j v" "optScan pages k fs = (?key v, v, ?nu v = None)"
        by auto
      show ?thesis
      proof (cases "?nu v")
        case vNone: None
        with jv(2) Some step have "optScan pages k (fs @ [x]) = (?key v, v, ?nu v = None)"
          by (cases "?nu q") (simp_all add: optScanStep_def nextUse_def)
        moreover from optChoice_snoc_keep[OF jv(1), of q] vNone Some
        have "optChoice ?nu (fs @ [x]) j v" by simp
        ultimately show ?thesis by blast
      next
        case vSome: (Some d)
        show ?thesis
        proof (cases "?nu q = None \<or> (\<exists>n. ?nu q = Some n \<and> d < n)")
          case True
          with jv(2) vSome Some step
          have "optScan pages k (fs @ [x]) = (?key q, q, ?nu q = None)"
            by (cases "?nu q") (auto simp: optScanStep_def nextUse_def)
          moreover from optChoice_snoc_new[OF jv(1) vSome True] Some
          have "optChoice ?nu (fs @ [x]) (length fs) q" by simp
          ultimately show ?thesis by blast
        next
          case False
          then obtain n where n: "?nu q = Some n" "n \<le> d"
            by (cases "?nu q") auto
          with jv(2) vSome Some step
          have "optScan pages k (fs @ [x]) = (?key v, v, ?nu v = None)"
            by (simp add: optScanStep_def nextUse_def)
          moreover from optChoice_snoc_keep[OF jv(1), of q] vSome n Some
          have "optChoice ?nu (fs @ [x]) j v" by simp
          ultimately show ?thesis by blast
        qed
      qed
    qed
    with ne show ?thesis by (simp only: if_False)
  qed
qed

lemma optChoice_indexOf:
  assumes "optChoice nu fs j v"
  shows "indexOf fs (Some v) = Some j"
proof -
  from assms have j: "j < length fs" "fs ! j = Some v"
    unfolding optChoice_def by auto
  have early: "fs ! i \<noteq> Some v" if "i < j" for i
  proof
    assume "fs ! i = Some v"
    with assms that show False
      unfolding optChoice_def by (cases "nu v") auto
  qed
  from j have "Some v \<in> set fs" by (metis nth_mem)
  then obtain i where i: "indexOf fs (Some v) = Some i"
    by (cases "indexOf fs (Some v)") (simp_all add: indexOf_None_iff)
  from indexOf_Some_D[OF i] have ii: "fs ! i = Some v" "\<forall>a<i. fs ! a \<noteq> Some v"
    by auto
  have "\<not> i < j" using early ii(1) by auto
  moreover have "\<not> j < i" using ii(2) j(2) by auto
  ultimately have "i = j" by simp
  with i show ?thesis by simp
qed

lemma selectVictim_OPTIMAL: "selectVictim OPTIMAL pages fc page i s = optVictim pages i s"
  by (simp add: selectVictim_def)

text \<open>The eviction of OPTIMAL on a full, non-empty table.\<close>

lemma opt_evict:
  assumes miss: "Some page \<notin> set (currentFrames s)" and full: "indexOf (currentFrames s) None = None"
    and ne: "currentFrames s \<noteq> []"
    and valid: "\<forall>w. Some w \<in> set (currentFrames s) \<longrightarrow> w \<noteq> Num (- 1)"
  shows "\<exists>j v. optChoice (nextUse pages i) (currentFrames s) j v
           \<and> replacedPage (last (stepsAcc (processPage OPTIMAL pages fc s (page, i)))) = Some v
           \<and> currentFrames (processPage OPTIMAL pages fc s (page, i)) = (currentFrames s)[j := Some page]"
proof -
  let ?fs = "currentFrames s"
  let ?s1 = "s\<lparr>faults := faults s + 1\<rparr>"
  from ne obtain x where x: "x \<in> set ?fs" by (cases ?fs) auto
  from full have "None \<notin> set ?fs" by (simp add: indexOf_None_iff)
  with x have "x \<noteq> None" by metis
  with x have "\<not> (\<forall>x\<in>set ?fs. x = None)" by blast
  with optScan_spec[of ?fs pages i] obtain j v where
    jv: "optChoice (nextUse pages i) ?fs j v" "fst (snd (optScan pages i ?fs)) = v"
    by (simp only: if_False) auto
  from jv(1) have "?fs ! j = Some v" "j < length ?fs" unfolding optChoice_def by auto
  then have "Some v \<in> set ?fs" by (metis nth_mem)
  with valid have "v \<noteq> Num (- 1)" by simp
  with jv(2) optChoice_indexOf[OF jv(1)]
  have v: "selectVictim OPTIMAL pages fc page i ?s1 = (Some j, Some v, ?s1)"
    by (simp add: selectVictim_OPTIMAL optVictim_def Let_def)
  from last_step_evict(2,4)[OF miss full v] jv(1) show ?thesis by auto
qed

text \<open>
  Claim C3. Under OPTIMAL, on a fault of reference \<open>k\<close> with no empty frame (and at least
  one frame), the evicted page \<open>v\<close> sits in a slot \<open>j\<close>, which the new page takes. If some
  resident page does not occur among the references after \<open>k\<close>, then \<open>v\<close> does not either,
  and every page in an earlier slot does: \<open>v\<close> is the first such page in slot order. If
  every resident page occurs again, \<open>v\<close> occurs again at a distance \<open>d\<close>, no resident page
  has a larger distance, and every page in an earlier slot has a smaller one: \<open>v\<close> is the
  first page of largest distance. (With no frame at all nothing is evicted.)
\<close>

theorem optimal_evicts_furthest_next_use:
  assumes "runSimulation raw frameCount OPTIMAL = Inr res" and "k < length (steps res)"
    and "s = stateBefore raw frameCount OPTIMAL k" and "page = parseReferenceString raw ! k"
    and "nu = nextUse (parseReferenceString raw) k"
    and "status (steps res ! k) = FAULT" and "None \<notin> set (currentFrames s)"
  shows "(0 < frameCount \<longrightarrow>
          (\<exists>j v. replacedPage (steps res ! k) = Some v
             \<and> j < nat frameCount \<and> currentFrames s ! j = Some v
             \<and> frames (steps res ! k) = (currentFrames s)[j := Some page]
             \<and> ((\<exists>w. Some w \<in> set (currentFrames s) \<and> nu w = None) \<longrightarrow>
                    nu v = None
                  \<and> (\<forall>i<j. \<forall>w. currentFrames s ! i = Some w \<longrightarrow> nu w \<noteq> None))
             \<and> ((\<forall>w. Some w \<in> set (currentFrames s) \<longrightarrow> nu w \<noteq> None) \<longrightarrow>
                    (\<exists>d. nu v = Some d
                       \<and> (\<forall>i<nat frameCount. \<forall>w e.
                             currentFrames s ! i = Some w \<and> nu w = Some e \<longrightarrow> e \<le> d)
                       \<and> (\<forall>i<j. \<forall>w e.
                             currentFrames s ! i = Some w \<and> nu w = Some e \<longrightarrow> e < d)))))
       \<and> (frameCount = 0 \<longrightarrow> replacedPage (steps res ! k) = None)"
proof (intro conjI impI)
  let ?pages = "parseReferenceString raw"
  let ?fs = "currentFrames s"
  have k: "k < length ?pages" "k \<le> length ?pages"
    using assms(2) length_steps[OF assms(1)] by simp_all
  let ?s' = "processPage OPTIMAL ?pages (nat frameCount) s (page, k)"
  have st: "steps res ! k = last (stepsAcc ?s')"
    using steps_nth[OF assms(1,2)] assms(3,4) by (simp add: stateBefore_Suc[OF k(1)])
  have wf: "wellFormed (nat frameCount) s" using wellFormed_stateBefore[OF k(2)] assms(3) by simp
  have "status (steps res ! k) = (if Some page \<in> set ?fs then HIT else FAULT)"
    by (simp add: st status_last_step)
  with assms(6) have miss: "Some page \<notin> set ?fs" by (simp split: if_splits)
  from assms(7) have full: "indexOf ?fs None = None" by (simp add: indexOf_None_iff)
  show "replacedPage (steps res ! k) = None" if "frameCount = 0"
    using zero_frames_step[OF _ assms(2)] assms(1) that by simp
  assume pos: "0 < frameCount"
  with wf have ne: "?fs \<noteq> []" by (auto simp: wellFormed_def)
  have valid: "\<forall>w. Some w \<in> set ?fs \<longrightarrow> w \<noteq> Num (- 1)"
    using resident_stateBefore[OF k(2), of _ frameCount OPTIMAL] assms(3)
      parseReferenceString_ge_zero ge_zero_not_sentinel by blast
  from opt_evict[OF miss full ne valid, of ?pages k "nat frameCount"] obtain j v where
    jv: "optChoice nu ?fs j v" "replacedPage (steps res ! k) = Some v"
        "frames (steps res ! k) = ?fs[j := Some page]"
    by (auto simp: st frames_last_step assms(5))
  from jv(1) wf have j: "j < nat frameCount" "?fs ! j = Some v"
    unfolding optChoice_def wellFormed_def by auto
  have len: "length ?fs = nat frameCount" using wf by (simp add: wellFormed_def)
  have inf: "nu v = None \<and> (\<forall>i<j. \<forall>w. ?fs ! i = Some w \<longrightarrow> nu w \<noteq> None)"
    if "\<exists>w. Some w \<in> set ?fs \<and> nu w = None"
  proof (cases "nu v")
    case None
    with jv(1) show ?thesis unfolding optChoice_def by simp
  next
    case (Some d)
    from that obtain w i where w: "nu w = None" "i < length ?fs" "?fs ! i = Some w"
      by (auto simp: in_set_conv_nth)
    with jv(1) Some have "\<exists>e. nu w = Some e \<and> e \<le> d" unfolding optChoice_def by auto
    with w(1) show ?thesis by simp
  qed
  have fin: "\<exists>d. nu v = Some d
               \<and> (\<forall>i<nat frameCount. \<forall>w e. ?fs ! i = Some w \<and> nu w = Some e \<longrightarrow> e \<le> d)
               \<and> (\<forall>i<j. \<forall>w e. ?fs ! i = Some w \<and> nu w = Some e \<longrightarrow> e < d)"
    if "\<forall>w. Some w \<in> set ?fs \<longrightarrow> nu w \<noteq> None"
  proof -
    from j len have "Some v \<in> set ?fs" by (metis nth_mem)
    with that obtain d where d: "nu v = Some d" by auto
    with jv(1) len
    have le: "\<forall>i<nat frameCount. \<forall>w. ?fs ! i = Some w \<longrightarrow> (\<exists>e. nu w = Some e \<and> e \<le> d)"
      and lt: "\<forall>i<j. \<forall>w. ?fs ! i = Some w \<longrightarrow> (\<exists>e. nu w = Some e \<and> e < d)"
      unfolding optChoice_def by auto
    have "e \<le> d" if "i < nat frameCount" "?fs ! i = Some w" "nu w = Some e" for i w e
      using le that by fastforce
    moreover have "e < d" if "i < j" "?fs ! i = Some w" "nu w = Some e" for i w e
      using lt that by fastforce
    ultimately show ?thesis using d by blast
  qed
  from jv(2,3) j inf fin
  show "\<exists>j v. replacedPage (steps res ! k) = Some v
             \<and> j < nat frameCount \<and> ?fs ! j = Some v
             \<and> frames (steps res ! k) = ?fs[j := Some page]
             \<and> ((\<exists>w. Some w \<in> set ?fs \<and> nu w = None) \<longrightarrow>
                    nu v = None \<and> (\<forall>i<j. \<forall>w. ?fs ! i = Some w \<longrightarrow> nu w \<noteq> None))
             \<and> ((\<forall>w. Some w \<in> set ?fs \<longrightarrow> nu w \<noteq> None) \<longrightarrow>
                    (\<exists>d. nu v = Some d
                       \<and> (\<forall>i<nat frameCount. \<forall>w e. ?fs ! i = Some w \<and> nu w = Some e \<longrightarrow> e \<le> d)
                       \<and> (\<forall>i<j. \<forall>w e. ?fs ! i = Some w \<and> nu w = Some e \<longrightarrow> e < d)))"
    by blast
qed

theorem optimal_evicts_furthest_next_use_witness:
  "status (steps (projr (runSimulation ''1,2,3,1'' 2 OPTIMAL)) ! 2) = FAULT
   \<and> currentFrames (stateBefore ''1,2,3,1'' 2 OPTIMAL 2) = [Some (Num 1), Some (Num 2)]
   \<and> nextUse (parseReferenceString ''1,2,3,1'') 2 (Num 1) = Some 0
   \<and> nextUse (parseReferenceString ''1,2,3,1'') 2 (Num 2) = None
   \<and> replacedPage (steps (projr (runSimulation ''1,2,3,1'' 2 OPTIMAL)) ! 2) = Some (Num 2)"
proof -
  let ?res = "projr (runSimulation ''1,2,3,1'' 2 OPTIMAL)"
  let ?s = "stateBefore ''1,2,3,1'' 2 OPTIMAL 2"
  let ?nu = "nextUse (parseReferenceString ''1,2,3,1'') 2"
  have r: "runSimulation ''1,2,3,1'' 2 OPTIMAL = Inr ?res"
    by (simp add: runSimulation_ok)
  have l: "2 < length (steps ?res)"
    using length_steps[OF r] by code_simp
  have f: "status (steps ?res ! 2) = FAULT" by code_simp
  have fr: "currentFrames ?s = [Some (Num 1), Some (Num 2)]" by code_simp
  have n1: "?nu (Num 1) = Some 0" by code_simp
  have n2: "?nu (Num 2) = None" by code_simp
  from fr have n: "None \<notin> set (currentFrames ?s)" by simp
  from fr n2 have ex: "\<exists>w. Some w \<in> set (currentFrames ?s) \<and> ?nu w = None" by auto
  from optimal_evicts_furthest_next_use[OF r l refl refl refl f n] ex
  obtain j v where
    e: "replacedPage (steps ?res ! 2) = Some v" "j < nat 2" "currentFrames ?s ! j = Some v"
       "?nu v = None"
    by auto
  from e(2) have "j = 0 \<or> j = 1" by auto
  with e(3) fr have "v = Num 1 \<or> v = Num 2" by auto
  with e(4) n1 have "v = Num 2" by auto
  with e(1) f fr n1 n2 show ?thesis by simp
qed

subsection \<open>CLOCK\<close>

lemma mod_add_distinct:
  fixes p :: nat
  assumes "i < a" and "a < fc"
  shows "(p + a) mod fc \<noteq> (p + i) mod fc"
proof
  assume "(p + a) mod fc = (p + i) mod fc"
  moreover have "p + i \<le> p + a" using assms(1) by simp
  ultimately have "fc dvd (p + a) - (p + i)"
    by (simp add: mod_eq_dvd_iff_nat)
  then have "fc dvd a - i" by simp
  moreover have "0 < a - i" "a - i < fc" using assms by simp_all
  ultimately show False by (meson nat_dvd_not_less)
qed

lemma sweepInv_initial:
  assumes "length b0 = fc" and "p0 < fc"
  shows "sweepInv fc fs b0 p0
           \<lparr>found = False, attempts = 0, indexToReplace = None, victimPage = None,
            pointer = p0, bits = b0\<rparr>"
  unfolding sweepInv_def using assms by simp

text \<open>One turn of the loop keeps the invariant.\<close>

lemma sweepInv_body:
  assumes inv: "sweepInv fc fs b0 p0 w" and nf: "\<not> found w" and p0: "p0 < fc"
    and fs: "length fs = fc"
  shows "sweepInv fc fs b0 p0 (sweepBody fc fs w)"
proof -
  from inv nf obtain n where n: "n \<le> fc"
    and len: "length (bits w) = fc"
    and set: "\<forall>i<n. b0 ! ((p0 + i) mod fc) \<noteq> 0"
    and bs: "\<forall>x<fc. bits w ! x = (if \<exists>i<n. x = (p0 + i) mod fc then 0 else b0 ! x)"
    and att: "attempts w = n" and ptr: "pointer w = (p0 + n) mod fc"
    unfolding sweepInv_def by auto
  from p0 have pos: "0 < fc" by simp
  then have pin: "pointer w < fc" using ptr by simp
  show ?thesis
  proof (cases "bits w ! pointer w = 0")
    case True
    with pin len fs have body: "sweepBody fc fs w
        = w\<lparr>found := True, indexToReplace := Some (pointer w), victimPage := fs ! pointer w,
            pointer := (pointer w + 1) mod fc, attempts := attempts w + 1\<rparr>"
      by (simp add: sweepBody_def)
    have "(pointer w + 1) mod fc = (p0 + n + 1) mod fc"
      unfolding ptr by (simp add: mod_Suc_eq)
    with n set bs att ptr True len show ?thesis
      unfolding sweepInv_def body by auto
  next
    case False
    with pin len have body: "sweepBody fc fs w
        = w\<lparr>bits := (bits w)[pointer w := 0],
            pointer := (pointer w + 1) mod fc, attempts := attempts w + 1\<rparr>"
      by (simp add: sweepBody_def)
    have nlt: "n < fc"
    proof (rule ccontr)
      assume "\<not> n < fc"
      with n have nfc: "n = fc" by simp
      then have "pointer w = p0" using ptr p0 by simp
      moreover have "\<exists>i<n. p0 = (p0 + i) mod fc" using nfc pos p0 by (intro exI[of _ 0]) simp
      ultimately have "bits w ! pointer w = 0" using bs p0 by simp
      with False show False by simp
    qed
    have fresh: "\<not> (\<exists>i<n. pointer w = (p0 + i) mod fc)"
      unfolding ptr using mod_add_distinct[OF _ nlt, of _ p0] by blast
    moreover from bs pin have "bits w ! pointer w
        = (if \<exists>i<n. pointer w = (p0 + i) mod fc then 0 else b0 ! pointer w)"
      by blast
    ultimately have "bits w ! pointer w = b0 ! pointer w" by (simp only: if_False)
    with False have cur: "b0 ! ((p0 + n) mod fc) \<noteq> 0" by (simp add: ptr)
    have set': "\<forall>i<Suc n. b0 ! ((p0 + i) mod fc) \<noteq> 0"
      using set cur by (simp add: less_Suc_eq)
    have bs': "(bits w)[pointer w := 0] ! x
               = (if \<exists>i<Suc n. x = (p0 + i) mod fc then 0 else b0 ! x)" if "x < fc" for x
    proof (cases "x = pointer w")
      case True
      then have "\<exists>i<Suc n. x = (p0 + i) mod fc" using ptr by (intro exI[of _ n]) simp
      with True that len show ?thesis by simp
    next
      case False
      then have "(\<exists>i<Suc n. x = (p0 + i) mod fc) \<longleftrightarrow> (\<exists>i<n. x = (p0 + i) mod fc)"
        using ptr by (auto simp: less_Suc_eq)
      with False that bs show ?thesis by simp
    qed
    have ptr': "(pointer w + 1) mod fc = (p0 + Suc n) mod fc"
      unfolding ptr by (simp add: mod_Suc_eq)
    from nlt have "Suc n \<le> fc" by simp
    with set' bs' ptr' att nf len show ?thesis
      unfolding sweepInv_def body by (intro conjI exI[of _ "Suc n"]) simp_all
  qed
qed

text \<open>The loop ends with a victim: the bound \<open>3 * fc\<close> is not what stops it.\<close>

lemma clockSweep_inv:
  assumes "sweepInv fc fs b0 p0 w" and "p0 < fc" and "length fs = fc"
  shows "sweepInv fc fs b0 p0 (clockSweep fc fs w) \<and> found (clockSweep fc fs w)"
  using assms
proof (induction fc fs w rule: clockSweep.induct)
  case (1 fc fs w)
  show ?case
  proof (cases "found w")
    case True
    with "1.prems"(1) show ?thesis by simp
  next
    case False
    from "1.prems"(1) False have "attempts w \<le> fc" unfolding sweepInv_def by auto
    with "1.prems"(2) have a: "attempts w < fc * 3" by simp
    from False a have go: "\<not> found w \<and> attempts w < fc * 3" by simp
    from sweepInv_body[OF "1.prems"(1) False "1.prems"(2,3)]
    have "sweepInv fc fs b0 p0 (sweepBody fc fs w)" .
    from "1.IH"[OF go this "1.prems"(2,3)] show ?thesis
      by (simp add: clockSweep_step[OF False a])
  qed
qed

text \<open>What the sweep of a well-formed state returns.\<close>

lemma clockSweep_spec:
  assumes wf: "wellFormed fc s" and pos: "0 < fc"
    and w: "w = clockSweep fc (currentFrames s)
                  \<lparr>found = False, attempts = 0, indexToReplace = None, victimPage = None,
                   pointer = clockPointer s, bits = referenceBits s\<rparr>"
  shows "\<exists>n\<le>fc. found w \<and> attempts w = n + 1
           \<and> indexToReplace w = Some ((clockPointer s + n) mod fc)
           \<and> victimPage w = currentFrames s ! ((clockPointer s + n) mod fc)
           \<and> pointer w = (clockPointer s + n + 1) mod fc
           \<and> length (bits w) = fc
           \<and> bits w ! ((clockPointer s + n) mod fc) = 0
           \<and> (\<forall>i<n. referenceBits s ! ((clockPointer s + i) mod fc) \<noteq> 0)
           \<and> (\<forall>x<fc. bits w ! x
                 = (if \<exists>i<n. x = (clockPointer s + i) mod fc then 0 else referenceBits s ! x))"
proof -
  from wf pos have l: "length (referenceBits s) = fc" "clockPointer s < fc"
    "length (currentFrames s) = fc"
    by (simp_all add: wellFormed_def)
  from clockSweep_inv[OF sweepInv_initial[OF l(1,2)] l(2,3)]
  have "sweepInv fc (currentFrames s) (referenceBits s) (clockPointer s) w" "found w"
    unfolding w by simp_all
  then show ?thesis unfolding sweepInv_def by auto
qed

lemma selectVictim_CLOCK: "selectVictim CLOCK pages fc page i s = clockVictim fc s"
  by (simp add: selectVictim_def)

text \<open>The eviction of CLOCK on a table with at least one frame.\<close>

lemma clock_evict:
  assumes wf: "wellFormed fc s" and pos: "0 < fc"
    and miss: "Some page \<notin> set (currentFrames s)" and full: "indexOf (currentFrames s) None = None"
    and w: "w = clockSweep fc (currentFrames s)
                  \<lparr>found = False, attempts = 0, indexToReplace = None, victimPage = None,
                   pointer = clockPointer s, bits = referenceBits s\<rparr>"
    and victim: "indexToReplace w = Some victim"
    and s': "s' = processPage CLOCK pages fc s (page, i)"
  shows "replacedPage (last (stepsAcc s')) = victimPage w"
    "currentFrames s' = (currentFrames s)[victim := Some page]"
    "referenceBits s' = (bits w)[victim := 1]"
    "clockPointer s' = pointer w"
proof -
  let ?s1 = "s\<lparr>faults := faults s + 1\<rparr>"
  let ?s2 = "?s1\<lparr>clockPointer := pointer w, referenceBits := (bits w)[victim := 1]\<rparr>"
  have v: "selectVictim CLOCK pages fc page i ?s1 = (Some victim, victimPage w, ?s2)"
    using victim by (simp add: selectVictim_CLOCK clockVictim_def w[symmetric] Let_def)
  show "replacedPage (last (stepsAcc s')) = victimPage w"
    unfolding s' by (rule last_step_evict(2)[OF miss full v])
  show "currentFrames s' = (currentFrames s)[victim := Some page]"
    unfolding s' using last_step_evict(4)[OF miss full v] by simp
  show "referenceBits s' = (bits w)[victim := 1]"
    unfolding s' by (simp add: processPage_evict[OF miss full v] pushStep_fields)
  show "clockPointer s' = pointer w"
    unfolding s' by (simp add: processPage_evict[OF miss full v] pushStep_fields)
qed

subsection \<open>The reference bits stay 0 or 1\<close>

lemma bits_update_valid:
  assumes "\<forall>x\<in>set bs. x = 0 \<or> x = (1::nat)"
  shows "\<forall>x\<in>set (bs[j := 1]). x = 0 \<or> x = 1"
proof
  fix x
  assume "x \<in> set (bs[j := 1])"
  then have "x = 1 \<or> x \<in> set bs"
    using set_update_subset_insert[of bs j 1] by auto
  with assms show "x = 0 \<or> x = 1" by auto
qed

lemma bitsValid_processPage:
  assumes "bitsValid s" and "wellFormed fc s"
  shows "bitsValid (processPage alg pages fc s (page, i))"
proof (cases rule: processPage_cases[where page=page and s=s and alg=alg and pages=pages and fc=fc and i=i])
  case hit
  have "bitsValid (onHit alg page i (s\<lparr>hits := hits s + 1\<rparr>))"
    using assms(1) bits_update_valid[of "referenceBits s"]
    by (auto simp: bitsValid_def onHit_def split: option.splits)
  then show ?thesis
    by (simp add: processPage_hit[OF hit] bitsValid_def pushStep_fields)
next
  case (fill e)
  have "bitsValid (fillEmpty alg fc page i e (s\<lparr>faults := faults s + 1\<rparr>))"
    using assms(1) bits_update_valid[of "referenceBits s"]
    by (auto simp: bitsValid_def fillEmpty_def Let_def)
  then show ?thesis
    by (simp add: processPage_fill[OF fill] bitsValid_def pushStep_fields)
next
  case (evict idx rep s2)
  let ?s1 = "s\<lparr>faults := faults s + 1\<rparr>"
  have "\<forall>x\<in>set (referenceBits s2). x = 0 \<or> x = 1"
  proof (cases "alg = CLOCK \<and> 0 < fc")
    case False
    then consider "alg \<noteq> CLOCK" | "alg = CLOCK" "fc = 0" by auto
    then have "referenceBits s2 = referenceBits s"
    proof cases
      case 1
      with evict(3) show ?thesis
        by (cases alg)
           (auto simp: selectVictim_def fifoVictim_def lruVictim_def optVictim_def Let_def
                 split: list.splits if_splits)
    next
      case 2
      with evict(3) show ?thesis
        by (auto simp: selectVictim_CLOCK clockVictim_def clockSweep_zero Let_def)
    qed
    with assms(1) show ?thesis by (simp add: bitsValid_def)
  next
    case True
    define w where "w = clockSweep fc (currentFrames s)
                  \<lparr>found = False, attempts = 0, indexToReplace = None, victimPage = None,
                   pointer = clockPointer s, bits = referenceBits s\<rparr>"
    from True have pos: "0 < fc" by simp
    from clockSweep_spec[OF assms(2) pos w_def] obtain n where
      n: "indexToReplace w = Some ((clockPointer s + n) mod fc)" "length (bits w) = fc"
         "\<forall>x<fc. bits w ! x = (if \<exists>i<n. x = (clockPointer s + i) mod fc then 0 else referenceBits s ! x)"
      by blast
    have len: "length (referenceBits s) = fc" using assms(2) by (simp add: wellFormed_def)
    have "y = 0 \<or> y = 1" if "y \<in> set (bits w)" for y
    proof -
      from that n(2) obtain x where x: "x < fc" "bits w ! x = y" by (auto simp: in_set_conv_nth)
      with n(3) have "y = 0 \<or> y = referenceBits s ! x" by (metis (full_types))
      moreover from x(1) len have "referenceBits s ! x \<in> set (referenceBits s)" by simp
      ultimately show ?thesis using assms(1) by (auto simp: bitsValid_def)
    qed
    then have "\<forall>x\<in>set ((bits w)[(clockPointer s + n) mod fc := 1]). x = 0 \<or> x = 1"
      by (intro bits_update_valid) blast
    moreover from evict(3) True n(1)
    have "referenceBits s2 = (bits w)[(clockPointer s + n) mod fc := 1]"
      by (auto simp: selectVictim_CLOCK clockVictim_def w_def[symmetric] Let_def)
    ultimately show ?thesis by simp
  qed
  then show ?thesis
    by (cases idx) (simp_all add: processPage_evict[OF evict] bitsValid_def pushStep_fields)
qed

lemma bitsValid_stateBefore:
  assumes "k \<le> length (parseReferenceString raw)"
  shows "bitsValid (stateBefore raw frameCount alg k)"
  using assms
proof (induction k)
  case 0
  then show ?case by (simp add: stateBefore_0 bitsValid_def initialState_def)
next
  case (Suc k)
  then have k: "k < length (parseReferenceString raw)" "k \<le> length (parseReferenceString raw)"
    by simp_all
  from bitsValid_processPage[OF Suc.IH[OF k(2)] wellFormed_stateBefore[OF k(2)]]
  show ?case by (simp add: stateBefore_Suc[OF k(1)])
qed

subsection \<open>The rounding of a quotient of counters\<close>














text \<open>
  Claim C6. Under CLOCK with at least one frame, take a fault of reference \<open>k\<close> with no
  empty frame, and let \<open>w\<close> be what the sweep loop returns, started at the pointer and the
  reference bits of the state \<open>s\<close> before the reference. The loop has found a victim
  (the bound of \<open>3 * frameCount\<close> turns did not stop it) after passing \<open>n \<le> frameCount\<close>
  slots, so in \<open>n + 1 \<le> 2 * frameCount\<close> turns. The victim is slot \<open>pointer + n\<close> (modulo
  \<open>frameCount\<close>) and its bit is 0 when it is selected. Every passed slot had bit 1 and has
  bit 0 afterwards, and no other bit has changed. The page of the victim slot is the
  evicted page, the new page takes the slot with bit 1, and the pointer moves to the
  slot after the victim, inside the table.
\<close>

theorem clock_sweep_finds_victim:
  assumes "runSimulation raw frameCount CLOCK = Inr res" and "k < length (steps res)"
    and "1 \<le> frameCount" and "fc = nat frameCount"
    and "s = stateBefore raw frameCount CLOCK k" and "s' = stateBefore raw frameCount CLOCK (Suc k)"
    and "page = parseReferenceString raw ! k"
    and "status (steps res ! k) = FAULT" and "None \<notin> set (currentFrames s)"
    and "w = clockSweep fc (currentFrames s)
               \<lparr>found = False, attempts = 0, indexToReplace = None, victimPage = None,
                pointer = clockPointer s, bits = referenceBits s\<rparr>"
  shows "\<exists>n victim. n \<le> fc \<and> victim = (clockPointer s + n) mod fc \<and> clockPointer s < fc
           \<and> found w \<and> indexToReplace w = Some victim
           \<and> attempts w = n + 1 \<and> attempts w \<le> 2 * fc \<and> attempts w \<le> 3 * fc
           \<and> bits w ! victim = 0
           \<and> (\<forall>i<n. referenceBits s ! ((clockPointer s + i) mod fc) = 1)
           \<and> (\<forall>x<fc. bits w ! x
                 = (if \<exists>i<n. x = (clockPointer s + i) mod fc then 0 else referenceBits s ! x))
           \<and> (\<exists>v. replacedPage (steps res ! k) = Some v \<and> currentFrames s ! victim = Some v)
           \<and> frames (steps res ! k) = (currentFrames s)[victim := Some page]
           \<and> referenceBits s' = (bits w)[victim := 1]
           \<and> clockPointer s' = (victim + 1) mod fc \<and> clockPointer s' < fc"
proof -
  let ?pages = "parseReferenceString raw"
  let ?fs = "currentFrames s"
  let ?p = "clockPointer s"
  have k: "k < length ?pages" "k \<le> length ?pages"
    using assms(2) length_steps[OF assms(1)] by simp_all
  have s': "s' = processPage CLOCK ?pages fc s (page, k)"
    using assms(4,5,6,7) by (simp add: stateBefore_Suc[OF k(1)])
  have st: "steps res ! k = last (stepsAcc s')"
    using steps_nth[OF assms(1,2)] assms(6) by simp
  have wf: "wellFormed fc s"
    using wellFormed_stateBefore[OF k(2), of frameCount CLOCK] assms(4,5) by simp
  have bv: "bitsValid s"
    using bitsValid_stateBefore[OF k(2), of frameCount CLOCK] assms(5) by simp
  have pos: "0 < fc" using assms(3,4) by simp
  from wf pos have len: "length ?fs = fc" "length (referenceBits s) = fc" "?p < fc"
    by (simp_all add: wellFormed_def)
  have "status (steps res ! k) = (if Some page \<in> set ?fs then HIT else FAULT)"
    by (simp add: st s' status_last_step)
  with assms(8) have miss: "Some page \<notin> set ?fs" by (simp split: if_splits)
  from assms(9) have full: "indexOf ?fs None = None" by (simp add: indexOf_None_iff)
  from clockSweep_spec[OF wf pos assms(10)] obtain n where
    n: "n \<le> fc" "found w" "attempts w = n + 1"
       "indexToReplace w = Some ((?p + n) mod fc)"
       "victimPage w = ?fs ! ((?p + n) mod fc)"
       "pointer w = (?p + n + 1) mod fc"
       "bits w ! ((?p + n) mod fc) = 0"
       "\<forall>i<n. referenceBits s ! ((?p + i) mod fc) \<noteq> 0"
       "\<forall>x<fc. bits w ! x = (if \<exists>i<n. x = (?p + i) mod fc then 0 else referenceBits s ! x)"
    by blast
  let ?v = "(?p + n) mod fc"
  have vin: "?v < fc" using pos by simp
  have att: "attempts w \<le> 2 * fc" "attempts w \<le> 3 * fc"
    using n(1,3) pos by simp_all
  have ones: "referenceBits s ! ((?p + i) mod fc) = 1" if "i < n" for i
  proof -
    have "(?p + i) mod fc < fc" using pos by simp
    with len(2) have "referenceBits s ! ((?p + i) mod fc) \<in> set (referenceBits s)" by simp
    with bv have "referenceBits s ! ((?p + i) mod fc) = 0 \<or> referenceBits s ! ((?p + i) mod fc) = 1"
      unfolding bitsValid_def by blast
    with n(8) that show ?thesis by blast
  qed
  from vin len(1) have "?fs ! ?v \<in> set ?fs" by simp
  with assms(9) obtain v where v: "?fs ! ?v = Some v" by (cases "?fs ! ?v") auto
  note ev = clock_evict[OF wf pos miss full assms(10) n(4) s']
  have rp: "replacedPage (steps res ! k) = Some v"
    using ev(1) n(5) v by (simp add: st)
  have fr: "frames (steps res ! k) = ?fs[?v := Some page]"
    using ev(2) by (simp add: st s' frames_last_step)
  have ptr: "clockPointer s' = (?v + 1) mod fc"
    using ev(4) n(6) by (simp add: mod_Suc_eq)
  then have ptr_in: "clockPointer s' < fc" using pos by simp
  have ex: "\<exists>u. replacedPage (steps res ! k) = Some u \<and> ?fs ! ?v = Some u"
    using rp v by blast
  have all1: "\<forall>i<n. referenceBits s ! ((?p + i) mod fc) = 1"
    using ones by blast
  show ?thesis
  proof (rule exI[of _ n], rule exI[of _ ?v], intro conjI)
    show "n \<le> fc" by (rule n(1))
    show "?v = (?p + n) mod fc" by (rule refl)
    show "?p < fc" by (rule len(3))
    show "found w" by (rule n(2))
    show "indexToReplace w = Some ?v" by (rule n(4))
    show "attempts w = n + 1" by (rule n(3))
    show "attempts w \<le> 2 * fc" by (rule att(1))
    show "attempts w \<le> 3 * fc" by (rule att(2))
    show "bits w ! ?v = 0" by (rule n(7))
    show "\<forall>i<n. referenceBits s ! ((?p + i) mod fc) = 1" by (rule all1)
    show "\<forall>x<fc. bits w ! x = (if \<exists>i<n. x = (?p + i) mod fc then 0 else referenceBits s ! x)"
      by (rule n(9))
    show "\<exists>u. replacedPage (steps res ! k) = Some u \<and> ?fs ! ?v = Some u" by (rule ex)
    show "frames (steps res ! k) = ?fs[?v := Some page]" by (rule fr)
    show "referenceBits s' = (bits w)[?v := 1]" by (rule ev(3))
    show "clockPointer s' = (?v + 1) mod fc" by (rule ptr)
    show "clockPointer s' < fc" by (rule ptr_in)
  qed
qed

theorem clock_sweep_finds_victim_witness:
  "status (steps (projr (runSimulation ''1,2,3'' 2 CLOCK)) ! 2) = FAULT
   \<and> currentFrames (stateBefore ''1,2,3'' 2 CLOCK 2) = [Some (Num 1), Some (Num 2)]
   \<and> referenceBits (stateBefore ''1,2,3'' 2 CLOCK 2) = [1, 1]
   \<and> clockPointer (stateBefore ''1,2,3'' 2 CLOCK 2) = 0
   \<and> found (clockSweep 2 [Some (Num 1), Some (Num 2)]
               \<lparr>found = False, attempts = 0, indexToReplace = None, victimPage = None,
                pointer = 0, bits = [1, 1]\<rparr>)
   \<and> attempts (clockSweep 2 [Some (Num 1), Some (Num 2)]
               \<lparr>found = False, attempts = 0, indexToReplace = None, victimPage = None,
                pointer = 0, bits = [1, 1]\<rparr>) \<le> 2 * 2
   \<and> clockPointer (stateBefore ''1,2,3'' 2 CLOCK 3) < 2"
proof -
  let ?res = "projr (runSimulation ''1,2,3'' 2 CLOCK)"
  let ?s = "stateBefore ''1,2,3'' 2 CLOCK 2"
  let ?w = "clockSweep 2 [Some (Num 1), Some (Num 2)]
               \<lparr>found = False, attempts = 0, indexToReplace = None, victimPage = None,
                pointer = 0, bits = [1, 1]\<rparr>"
  have r: "runSimulation ''1,2,3'' 2 CLOCK = Inr ?res"
    by (simp add: runSimulation_ok)
  have l: "2 < length (steps ?res)"
    using length_steps[OF r] by code_simp
  have f: "status (steps ?res ! 2) = FAULT" by code_simp
  have fr: "currentFrames ?s = [Some (Num 1), Some (Num 2)]" by code_simp
  have rb: "referenceBits ?s = [1, 1]" by code_simp
  have cp: "clockPointer ?s = 0" by code_simp
  from fr have n: "None \<notin> set (currentFrames ?s)" by simp
  have w: "?w = clockSweep (nat 2) (currentFrames ?s)
               \<lparr>found = False, attempts = 0, indexToReplace = None, victimPage = None,
                pointer = clockPointer ?s, bits = referenceBits ?s\<rparr>"
    by (simp add: fr rb cp)
  have one: "(1::int) \<le> 2" by simp
  from clock_sweep_finds_victim[OF r l one refl refl refl refl f n w]
  obtain m u where "found ?w" "attempts ?w \<le> 2 * nat 2"
    "clockPointer (stateBefore ''1,2,3'' 2 CLOCK (Suc 2)) < nat 2"
    by blast
  then have "found ?w \<and> attempts ?w \<le> 2 * nat 2
        \<and> clockPointer (stateBefore ''1,2,3'' 2 CLOCK (Suc 2)) < nat 2"
    by (intro conjI)
  then have "found ?w \<and> attempts ?w \<le> 2 * 2 \<and> clockPointer (stateBefore ''1,2,3'' 2 CLOCK 3) < 2"
    by (simp add: eval_nat_numeral)
  with f fr rb cp show ?thesis by simp
qed

end
